theory Spec2Isabelle
  imports Complex_Main "HOL-Library.Word"
begin

section \<open>Voxel masks and the two repair passes (build_xqcL_coin_parts.js)\<close>

text \<open>
  A mask is a \<open>Uint8Array\<close> of \<open>W * H\<close> cells in row-major order; a cell is
  included when its byte is non-zero.  The grid sizes \<open>W\<close> and \<open>H\<close> are non-negative
  integers, so the loop bounds \<open>W - 1\<close> and \<open>H - 1\<close> are truncated subtractions on
  \<open>nat\<close>: for \<open>W = 0\<close> the source compares with \<open>-1\<close> and runs no iteration
  either.
\<close>

type_synonym byte = "8 word"

definition idx :: "nat \<Rightarrow> nat \<Rightarrow> nat \<Rightarrow> nat" where
  "idx W x y = y * W + x"

text \<open>
  \<open>mask[i]\<close> used as a condition: a read past the end of a typed array is
  \<open>undefined\<close>, which is falsy.
\<close>

definition truthy :: "byte list \<Rightarrow> nat \<Rightarrow> bool" where
  "truthy msk i = (i < length msk \<and> msk ! i \<noteq> 0)"

text \<open>
  One iteration of the inner loop of \<open>breakDiagonalContacts\<close>: the four cells are read
  first, then the two tests use the values read.  A typed-array store past the end is
  ignored, as \<open>list_update\<close> is.
\<close>

definition diagStep :: "nat \<Rightarrow> nat \<Rightarrow> nat \<Rightarrow> byte list \<Rightarrow> byte list" where
  "diagStep W y x msk =
     (let a = truthy msk (idx W x y);
          b = truthy msk (idx W (x + 1) y);
          c = truthy msk (idx W x (y + 1));
          d = truthy msk (idx W (x + 1) (y + 1));
          m1 = (if a \<and> \<not> b \<and> \<not> c \<and> d then msk[idx W (x + 1) (y + 1) := 0] else msk);
          m2 = (if \<not> a \<and> b \<and> c \<and> \<not> d then m1[idx W x (y + 1) := 0] else m1)
      in m2)"

definition breakDiagonalContacts :: "byte list \<Rightarrow> nat \<Rightarrow> nat \<Rightarrow> byte list" where
  "breakDiagonalContacts msk W H =
     fold (\<lambda>y m. fold (diagStep W y) [0..<W - 1] m) [0..<H - 1] msk"

text \<open>
  \<open>cond ? mask[j] : 0\<close> as a summand of the neighbour count.  \<open>None\<close> stands for
  \<open>undefined\<close> (a read past the end), which turns the sum into \<open>NaN\<close>.
\<close>

definition neighbour :: "byte list \<Rightarrow> bool \<Rightarrow> nat \<Rightarrow> nat option" where
  "neighbour msk cond j =
     (if cond then (if j < length msk then Some (unat (msk ! j)) else None) else Some 0)"

definition addN :: "nat option \<Rightarrow> nat option \<Rightarrow> nat option" where
  "addN p q = (case p of None \<Rightarrow> None | Some a \<Rightarrow> (case q of None \<Rightarrow> None | Some b \<Rightarrow> Some (a + b)))"

definition neighbourCount :: "byte list \<Rightarrow> nat \<Rightarrow> nat \<Rightarrow> nat \<Rightarrow> nat \<Rightarrow> nat option" where
  "neighbourCount msk W H x y =
     addN (addN (addN (neighbour msk (x > 0) (idx W (x - 1) y))
                      (neighbour msk (x < W - 1) (idx W (x + 1) y)))
                (neighbour msk (y > 0) (idx W x (y - 1))))
          (neighbour msk (y < H - 1) (idx W x (y + 1)))"

text \<open>
  One iteration of the inner loop of \<open>removeIsolated\<close>: the tests read the unchanged
  \<open>mask\<close>, the store goes to the copy \<open>out\<close>.  \<open>NaN === 0\<close> is false.
\<close>

definition isoStep :: "byte list \<Rightarrow> nat \<Rightarrow> nat \<Rightarrow> nat \<Rightarrow> nat \<Rightarrow> byte list \<Rightarrow> byte list" where
  "isoStep msk W H y x out =
     (let i = idx W x y in
      if \<not> truthy msk i then out
      else (case neighbourCount msk W H x y of
              Some n \<Rightarrow> (if n = 0 then out[i := 0] else out)
            | None \<Rightarrow> out))"

text \<open>\<open>mask.set(out)\<close> leaves the contents of \<open>out\<close> in \<open>mask\<close>, which is what is returned here.\<close>

definition removeIsolated :: "byte list \<Rightarrow> nat \<Rightarrow> nat \<Rightarrow> byte list" where
  "removeIsolated msk W H =
     fold (\<lambda>y out. fold (isoStep msk W H y) [0..<W] out) [0..<H] msk"

subsection \<open>Predicates on masks\<close>

text \<open>The cell at column \<open>x\<close>, row \<open>y\<close> is included.\<close>

definition cell :: "byte list \<Rightarrow> nat \<Rightarrow> nat \<Rightarrow> nat \<Rightarrow> bool" where
  "cell m W x y = truthy m (idx W x y)"

text \<open>
  The two forbidden patterns of the 2x2 block whose upper left cell is \<open>(x, y)\<close>:
  only one diagonal is included.
\<close>

definition diagPattern :: "byte list \<Rightarrow> nat \<Rightarrow> nat \<Rightarrow> nat \<Rightarrow> bool" where
  "diagPattern m W x y =
     ((cell m W x y \<and> \<not> cell m W (x + 1) y \<and> \<not> cell m W x (y + 1) \<and> cell m W (x + 1) (y + 1)) \<or>
      (\<not> cell m W x y \<and> cell m W (x + 1) y \<and> cell m W x (y + 1) \<and> \<not> cell m W (x + 1) (y + 1)))"

definition noDiagonal :: "byte list \<Rightarrow> nat \<Rightarrow> nat \<Rightarrow> bool" where
  "noDiagonal m W H = (\<forall>y \<in> {0..<H - 1}. \<forall>x \<in> {0..<W - 1}. \<not> diagPattern m W x y)"

text \<open>An included cell none of whose four neighbours inside the grid is included.\<close>

definition isolatedCell :: "byte list \<Rightarrow> nat \<Rightarrow> nat \<Rightarrow> nat \<Rightarrow> nat \<Rightarrow> bool" where
  "isolatedCell m W H x y =
     (cell m W x y \<and>
      \<not> (x > 0 \<and> cell m W (x - 1) y) \<and>
      \<not> (x < W - 1 \<and> cell m W (x + 1) y) \<and>
      \<not> (y > 0 \<and> cell m W x (y - 1)) \<and>
      \<not> (y < H - 1 \<and> cell m W x (y + 1)))"

definition noIsolated :: "byte list \<Rightarrow> nat \<Rightarrow> nat \<Rightarrow> bool" where
  "noIsolated m W H = (\<forall>y \<in> {0..<H}. \<forall>x \<in> {0..<W}. \<not> isolatedCell m W H x y)"

text \<open>
  The composite repair in the order the specification gives: diagonal-contact breaking,
  then isolated-cell removal.
\<close>

definition repair :: "byte list \<Rightarrow> nat \<Rightarrow> nat \<Rightarrow> byte list" where
  "repair m W H = removeIsolated (breakDiagonalContacts m W H) W H"

text \<open>\<open>shrinks m' m\<close>: the mask \<open>m'\<close> has the size of \<open>m\<close> and includes no cell that \<open>m\<close> excludes.\<close>

definition shrinks :: "byte list \<Rightarrow> byte list \<Rightarrow> bool" where
  "shrinks m' m = (length m' = length m \<and> (\<forall>i. truthy m' i \<longrightarrow> truthy m i))"

text \<open>
  Loop invariants of the two passes.  \<open>diagDone m W y k\<close>: no block above row \<open>y\<close>,
  and no block of row \<open>y\<close> left of column \<open>k\<close>, shows a forbidden pattern.
  \<open>isoDone out m W H y k\<close>: \<open>out\<close> is \<open>m\<close> without the isolated cells among those
  already visited.
\<close>

definition diagDone :: "byte list \<Rightarrow> nat \<Rightarrow> nat \<Rightarrow> nat \<Rightarrow> bool" where
  "diagDone m W y k =
     ((\<forall>y' < y. \<forall>x'. Suc x' < W \<longrightarrow> \<not> diagPattern m W x' y') \<and>
      (\<forall>x' < k. \<not> diagPattern m W x' y))"

definition isoDone :: "byte list \<Rightarrow> byte list \<Rightarrow> nat \<Rightarrow> nat \<Rightarrow> nat \<Rightarrow> nat \<Rightarrow> bool" where
  "isoDone out m W H y k =
     (\<forall>qx < W. \<forall>qy < H. cell out W qx qy =
        (cell m W qx qy \<and> \<not> ((qy < y \<or> (qy = y \<and> qx < k)) \<and> isolatedCell m W H qx qy)))"

subsection \<open>The per-class loop of \<open>main\<close> (build_xqcL_coin_parts.js, lines 451-477)\<close>







section \<open>Numbers\<close>

text \<open>
  JavaScript numbers are modelled as exact reals: the rounding of IEEE doubles is outside
  the model.  Where the source can produce \<open>NaN\<close> (from \<open>0 / 0\<close> or from arithmetic on
  \<open>undefined\<close>), the model says so with \<open>None\<close>.
\<close>

section \<open>Image Sampler: nearest-neighbour alpha resampling (build_xqcL_stl.js, lines 27-37)\<close>

text \<open>
  The errors of the source: the \<open>RangeError\<close> of a \<open>Buffer\<close> access outside the buffer,
  the \<open>TypeError\<close> of a property access on \<open>undefined\<close>, and
  \<open>new Error('no points')\<close> of the quantizer.  \<open>InvalidDimension\<close> is the error the
  specification names; no path of the source produces it.
\<close>

datatype error = RangeError | TypeError | NoPoints | InvalidDimension

text \<open>
  \<open>Math.floor((i / (N - 1)) * (srcN - 1))\<close> for a loop index \<open>i < N\<close>.  For \<open>N = 1\<close> the
  quotient is \<open>0 / 0\<close>, and the index is \<open>NaN\<close>.
\<close>

definition srcIndex :: "nat \<Rightarrow> nat \<Rightarrow> nat \<Rightarrow> int option" where
  "srcIndex i N srcN =
     (if N = 1 then None
      else Some \<lfloor>(real i / (real N - 1)) * (real srcN - 1)\<rfloor>)"

text \<open>
  \<open>alpha[sy * w + sx]\<close> as stored into the \<open>Float32Array\<close>: a read at a negative,
  too large or \<open>NaN\<close> index is \<open>undefined\<close>, stored as \<open>NaN\<close>; a byte is stored exactly.
\<close>

definition resampleCell :: "byte list \<Rightarrow> nat \<Rightarrow> nat \<Rightarrow> nat \<Rightarrow> nat \<Rightarrow> nat \<Rightarrow> nat \<Rightarrow> real option" where
  "resampleCell alpha w h newW newH y x =
     (case srcIndex y newH h of
        None \<Rightarrow> None
      | Some sy \<Rightarrow>
          (case srcIndex x newW w of
             None \<Rightarrow> None
           | Some sx \<Rightarrow>
               (let j = sy * int w + sx in
                if 0 \<le> j \<and> j < int (length alpha) then Some (real (unat (alpha ! nat j)))
                else None)))"

text \<open>
  The function has no check and no \<open>throw\<close>, and typed-array reads and stores never
  throw: every call returns the grid, which is \<open>Inr\<close> here.
\<close>

definition resampleNearestAlpha ::
  "byte list \<Rightarrow> nat \<Rightarrow> nat \<Rightarrow> nat \<Rightarrow> nat \<Rightarrow> error + real option list" where
  "resampleNearestAlpha alpha w h newW newH =
     Inr (fold (\<lambda>y out. fold (\<lambda>x out. out[y * newW + x := resampleCell alpha w h newW newH y x])
                            [0..<newW] out)
               [0..<newH] (replicate (newW * newH) (Some 0)))"


section \<open>Triangles and normals (build_xqcL_stl.js)\<close>

type_synonym vec3 = "real \<times> real \<times> real"

text \<open>\<open>Math.hypot(nx, ny, nz) || 1\<close>: a zero length is falsy and is replaced by 1.\<close>

definition hypotOr1 :: "real \<Rightarrow> real \<Rightarrow> real \<Rightarrow> real" where
  "hypotOr1 x y z = (let l = sqrt (x * x + y * y + z * z) in if l = 0 then 1 else l)"


text \<open>
  A triangle of the heightmap builder: the normal and the three vertices.  The builder
  fills it with numbers; the codec below works for any type of coordinate.
\<close>

record 'a tri =
  nx :: 'a
  ny :: 'a
  nz :: 'a
  ax :: 'a
  ay :: 'a
  az :: 'a
  bx :: 'a
  "by" :: 'a
  bz :: 'a
  cx :: 'a
  cy :: 'a
  cz :: 'a

text \<open>\<open>addTri\<close> of \<open>buildWatertightHeightmapSTL\<close> (lines 54-64): the record it pushes.\<close>

definition addTri :: "real \<Rightarrow> real \<Rightarrow> real \<Rightarrow> real \<Rightarrow> real \<Rightarrow> real \<Rightarrow> real \<Rightarrow> real \<Rightarrow> real \<Rightarrow> real tri" where
  "addTri a1 a2 a3 b1 b2 b3 c1 c2 c3 =
     (let ux = b1 - a1; uy = b2 - a2; uz = b3 - a3;
          vx = c1 - a1; vy = c2 - a2; vz = c3 - a3;
          n1 = uy * vz - uz * vy;
          n2 = uz * vx - ux * vz;
          n3 = ux * vy - uy * vx;
          len = hypotOr1 n1 n2 n3
      in \<lparr>nx = n1 / len, ny = n2 / len, nz = n3 / len,
          ax = a1, ay = a2, az = a3, bx = b1, by = b2, bz = b3, cx = c1, cy = c2, cz = c3\<rparr>)"






section \<open>Binary Mesh Codec (build_xqcL_stl.js, lines 149-179; inspect_stl.js, lines 3-22)\<close>

text \<open>
  A \<open>Buffer\<close> is a list of bytes.  \<open>Buffer.alloc\<close> fills it with zeros.  The integer
  and float writers and readers of \<open>Buffer\<close> throw a \<open>RangeError\<close> when the bytes they
  touch do not lie inside the buffer, and the integer writers when the value does not fit.
\<close>

definition alloc :: "nat \<Rightarrow> byte list" where
  "alloc n = replicate n 0"

definition putBytes :: "byte list \<Rightarrow> nat \<Rightarrow> byte list \<Rightarrow> error + byte list" where
  "putBytes buf off bs =
     (if off + length bs \<le> length buf
      then Inr (take off buf @ bs @ drop (off + length bs) buf)
      else Inl RangeError)"

definition u16le :: "nat \<Rightarrow> byte list" where
  "u16le n = [of_nat (n mod 256), of_nat (n div 256 mod 256)]"

definition u32le :: "nat \<Rightarrow> byte list" where
  "u32le n = [of_nat (n mod 256), of_nat (n div 256 mod 256),
              of_nat (n div 65536 mod 256), of_nat (n div 16777216 mod 256)]"

definition writeUInt32LE :: "byte list \<Rightarrow> nat \<Rightarrow> nat \<Rightarrow> error + byte list" where
  "writeUInt32LE buf n off = (if n < 2 ^ 32 then putBytes buf off (u32le n) else Inl RangeError)"

text \<open>
  \<open>writeFloatLE\<close> rounds the number to IEEE binary32 and stores the four bytes of the
  bit pattern, least significant first.  The rounding is a function of the platform, not
  of this repository: it is the parameter \<open>enc\<close>, from whatever type represents the
  numbers (\<open>NaN\<close> and the infinities included) to the bit pattern.
\<close>

definition f32le :: "32 word \<Rightarrow> byte list" where
  "f32le v = u32le (unat v)"

definition readUInt32LE :: "byte list \<Rightarrow> nat \<Rightarrow> error + nat" where
  "readUInt32LE buf off =
     (if off + 4 \<le> length buf
      then Inr (unat (buf ! off) + 256 * unat (buf ! (off + 1)) +
                65536 * unat (buf ! (off + 2)) + 16777216 * unat (buf ! (off + 3)))
      else Inl RangeError)"

text \<open>\<open>readFloatLE\<close>, up to the decoding of the bit pattern it reads.\<close>

definition readFloatLE :: "byte list \<Rightarrow> nat \<Rightarrow> error + 32 word" where
  "readFloatLE buf off =
     (case readUInt32LE buf off of Inl e \<Rightarrow> Inl e | Inr n \<Rightarrow> Inr (of_nat n))"

text \<open>
  \<open>out.write(text, 0, 'ascii')\<close>: the character codes of the text, as far as they fit.
\<close>

definition writeAscii0 :: "byte list \<Rightarrow> string \<Rightarrow> byte list" where
  "writeAscii0 buf s =
     (let bs = map (\<lambda>c. of_nat (of_char c)) s; k = min (length bs) (length buf)
      in take k bs @ drop k buf)"

text \<open>
  The thirteen writes of one iteration of the loop of \<open>writeBinarySTL\<close>, in the order of
  the source: the offset relative to \<open>o\<close>, and the bytes written there.  The last is
  \<open>writeUInt16LE(0, o + 48)\<close>.
\<close>

definition triFields :: "('a \<Rightarrow> 32 word) \<Rightarrow> 'a tri \<Rightarrow> (nat \<times> byte list) list" where
  "triFields enc t =
     [(0, f32le (enc (nx t))), (4, f32le (enc (ny t))), (8, f32le (enc (nz t))),
      (12, f32le (enc (ax t))), (16, f32le (enc (ay t))), (20, f32le (enc (az t))),
      (24, f32le (enc (bx t))), (28, f32le (enc (by t))), (32, f32le (enc (bz t))),
      (36, f32le (enc (cx t))), (40, f32le (enc (cy t))), (44, f32le (enc (cz t))),
      (48, u16le 0)]"

fun putAll :: "byte list \<Rightarrow> nat \<Rightarrow> (nat \<times> byte list) list \<Rightarrow> error + byte list" where
  "putAll buf off [] = Inr buf"
| "putAll buf off ((d, bs) # fs) =
     (case putBytes buf (off + d) bs of
        Inl e \<Rightarrow> Inl e
      | Inr buf' \<Rightarrow> putAll buf' off fs)"

text \<open>The loop \<open>for (const t of tris)\<close>, with \<open>o += 50\<close> at the end of each iteration.\<close>

fun writeTris :: "('a \<Rightarrow> 32 word) \<Rightarrow> byte list \<Rightarrow> nat \<Rightarrow> 'a tri list \<Rightarrow> error + byte list" where
  "writeTris enc buf off [] = Inr buf"
| "writeTris enc buf off (t # ts) =
     (case putAll buf off (triFields enc t) of
        Inl e \<Rightarrow> Inl e
      | Inr buf' \<Rightarrow> writeTris enc buf' (off + 50) ts)"

text \<open>\<open>writeBinarySTL\<close>: the bytes handed to \<open>fs.writeFileSync\<close>.\<close>

definition writeBinarySTL :: "('a \<Rightarrow> 32 word) \<Rightarrow> 'a tri list \<Rightarrow> error + byte list" where
  "writeBinarySTL enc tris =
     (let triCount = length tris;
          out0 = alloc (84 + triCount * 50);
          out1 = writeAscii0 out0 ''xqcL heightmap relief STL''
      in case writeUInt32LE out1 triCount 80 of
           Inl e \<Rightarrow> Inl e
         | Inr out2 \<Rightarrow> writeTris enc out2 84 tris)"

text \<open>
  The reader.  The bounding box is folded over the bit patterns of the coordinates read:
  \<open>upd box (x, y, z)\<close> stands for the six \<open>Math.min\<close>/\<open>Math.max\<close> updates on the
  decoded floats, and \<open>box0\<close> for the initial box of infinities; the float arithmetic
  of the platform is not modelled.
\<close>

fun readVerts :: "('b \<Rightarrow> 32 word \<times> 32 word \<times> 32 word \<Rightarrow> 'b) \<Rightarrow> byte list \<Rightarrow> nat \<Rightarrow>
    nat \<times> 'b \<Rightarrow> error + nat \<times> 'b" where
  "readVerts upd buf 0 s = Inr s"
| "readVerts upd buf (Suc v) (off, box) =
     (case readFloatLE buf off of Inl e \<Rightarrow> Inl e | Inr x \<Rightarrow>
      case readFloatLE buf (off + 4) of Inl e \<Rightarrow> Inl e | Inr y \<Rightarrow>
      case readFloatLE buf (off + 8) of Inl e \<Rightarrow> Inl e | Inr z \<Rightarrow>
        readVerts upd buf v (off + 12, upd box (x, y, z)))"

fun readTris :: "('b \<Rightarrow> 32 word \<times> 32 word \<times> 32 word \<Rightarrow> 'b) \<Rightarrow> byte list \<Rightarrow> nat \<Rightarrow>
    nat \<times> 'b \<Rightarrow> error + nat \<times> 'b" where
  "readTris upd buf 0 s = Inr s"
| "readTris upd buf (Suc t) (off, box) =
     (case readVerts upd buf 3 (off + 12, box) of
        Inl e \<Rightarrow> Inl e
      | Inr (off', box') \<Rightarrow> readTris upd buf t (off' + 2, box'))"

definition readBinarySTL :: "('b \<Rightarrow> 32 word \<times> 32 word \<times> 32 word \<Rightarrow> 'b) \<Rightarrow> 'b \<Rightarrow> byte list \<Rightarrow>
    error + nat \<times> 'b" where
  "readBinarySTL upd box0 buf =
     (case readUInt32LE buf 80 of
        Inl e \<Rightarrow> Inl e
      | Inr triCount \<Rightarrow>
          (case readTris upd buf triCount (84, box0) of
             Inl e \<Rightarrow> Inl e
           | Inr (off, box) \<Rightarrow> Inr (triCount, box)))"

text \<open>The layout the specification describes: header, count, and 50 bytes per triangle.\<close>

definition header80 :: "byte list" where
  "header80 = map (\<lambda>c. of_nat (of_char c)) ''xqcL heightmap relief STL'' @ replicate 55 0"

definition triBytes :: "('a \<Rightarrow> 32 word) \<Rightarrow> 'a tri \<Rightarrow> byte list" where
  "triBytes enc t =
     f32le (enc (nx t)) @ f32le (enc (ny t)) @ f32le (enc (nz t)) @
     f32le (enc (ax t)) @ f32le (enc (ay t)) @ f32le (enc (az t)) @
     f32le (enc (bx t)) @ f32le (enc (by t)) @ f32le (enc (bz t)) @
     f32le (enc (cx t)) @ f32le (enc (cy t)) @ f32le (enc (cz t)) @
     [0, 0]"

text \<open>The offsets of a list of writes follow one another from \<open>d\<close> without a gap.\<close>

fun tiled :: "nat \<Rightarrow> (nat \<times> byte list) list \<Rightarrow> bool" where
  "tiled d [] = True"
| "tiled d ((d', bs) # fs) = (d' = d \<and> tiled (d + length bs) fs)"

section \<open>Image Sampler: bilinear lookup (build_xqcL_stl.js, lines 245-281)\<close>

record image =
  width :: nat
  height :: nat
  data :: "byte list"

definition clamp :: "real \<Rightarrow> real \<Rightarrow> real \<Rightarrow> real" where
  "clamp v lo hi = max lo (min hi v)"

text \<open>
  For one axis with \<open>n\<close> samples: the position \<open>clamp(u, 0, 1) * (n - 1)\<close>, the two
  sample indices \<open>x0\<close> and \<open>x1\<close>, and the weight \<open>tx\<close>.
\<close>

definition pos :: "nat \<Rightarrow> real \<Rightarrow> real" where
  "pos n u = clamp u 0 1 * (real n - 1)"

definition index0 :: "nat \<Rightarrow> real \<Rightarrow> int" where
  "index0 n u = \<lfloor>pos n u\<rfloor>"

definition index1 :: "nat \<Rightarrow> real \<Rightarrow> int" where
  "index1 n u = min (index0 n u + 1) (int n - 1)"

definition weight :: "nat \<Rightarrow> real \<Rightarrow> real" where
  "weight n u = pos n u - of_int (index0 n u)"

text \<open>
  \<open>data[i + k] / 255\<close> for the pixel \<open>(ix, iy)\<close>, where \<open>i = (iy * w + ix) * 4\<close>: a read
  outside the buffer is \<open>undefined\<close>, and the quotient \<open>NaN\<close>.
\<close>

definition pxIndex :: "image \<Rightarrow> int \<Rightarrow> int \<Rightarrow> int" where
  "pxIndex img ix iy = (iy * int (width img) + ix) * 4"

definition px :: "image \<Rightarrow> int \<Rightarrow> int \<Rightarrow> nat \<Rightarrow> real option" where
  "px img ix iy k =
     (let i = pxIndex img ix iy + int k in
      if 0 \<le> i \<and> i < int (length (data img)) then Some (real (unat (data img ! nat i)) / 255)
      else None)"

text \<open>\<open>p * (1 - t) + q * t\<close>, where \<open>NaN\<close> operands give \<open>NaN\<close>.\<close>

definition mix :: "real option \<Rightarrow> real option \<Rightarrow> real \<Rightarrow> real option" where
  "mix p q t =
     (case p of None \<Rightarrow> None
      | Some a \<Rightarrow> (case q of None \<Rightarrow> None | Some b \<Rightarrow> Some (a * (1 - t) + b * t)))"

definition sampleRGBA_bilinear :: "image \<Rightarrow> real \<Rightarrow> real \<Rightarrow> real option list" where
  "sampleRGBA_bilinear img u v =
     (let w = width img; h = height img;
          x0 = index0 w u; y0 = index0 h v;
          x1 = index1 w u; y1 = index1 h v;
          tx = weight w u; ty = weight h v
      in map (\<lambda>k. let a = mix (px img x0 y0 k) (px img x1 y0 k) tx;
                       b = mix (px img x0 y1 k) (px img x1 y1 k) tx
                   in mix a b ty)
             [0..<4])"

definition luminance :: "real \<Rightarrow> real \<Rightarrow> real \<Rightarrow> real" where
  "luminance r g b = 0.2126 * r + 0.7152 * g + 0.0722 * b"

section \<open>Heightfield Relief Builder (build_xqcL_stl.js, lines 39-147, 181-212)\<close>

definition zTop :: "byte list \<Rightarrow> real \<Rightarrow> real \<Rightarrow> nat \<Rightarrow> real" where
  "zTop alpha baseThicknessMM reliefHeightMM i =
     baseThicknessMM + (real (unat (alpha ! i)) / 255) * reliefHeightMM"

text \<open>\<open>V(x, y, z)\<close>, with \<open>dx\<close>, \<open>dy\<close> and the centre as the source computes them.\<close>

definition V :: "nat \<Rightarrow> nat \<Rightarrow> real \<Rightarrow> real \<Rightarrow> real \<Rightarrow> real \<Rightarrow> vec3" where
  "V w h targetWidthMM x y z =
     (let dx = targetWidthMM / (real w - 1);
          dy = targetWidthMM / (real h - 1);
          cx' = (real w - 1) * dx / 2;
          cy' = (real h - 1) * dy / 2
      in (x * dx - cx', y * dy - cy', z))"

definition addTriV :: "vec3 \<Rightarrow> vec3 \<Rightarrow> vec3 \<Rightarrow> real tri" where
  "addTriV A B C =
     (case A of (a1, a2, a3) \<Rightarrow> case B of (b1, b2, b3) \<Rightarrow> case C of (c1, c2, c3) \<Rightarrow>
        addTri a1 a2 a3 b1 b2 b3 c1 c2 c3)"

text \<open>The two triangles of the top surface over the cell \<open>(x, y)\<close>.\<close>

definition topCell :: "byte list \<Rightarrow> nat \<Rightarrow> nat \<Rightarrow> real \<Rightarrow> real \<Rightarrow> real \<Rightarrow> nat \<Rightarrow> nat \<Rightarrow> real tri list" where
  "topCell alpha w h T B R y x =
     (let i00 = y * w + x; i10 = y * w + (x + 1);
          i01 = (y + 1) * w + x; i11 = (y + 1) * w + (x + 1);
          p00 = V w h T (real x) (real y) (zTop alpha B R i00);
          p10 = V w h T (real (x + 1)) (real y) (zTop alpha B R i10);
          p01 = V w h T (real x) (real (y + 1)) (zTop alpha B R i01);
          p11 = V w h T (real (x + 1)) (real (y + 1)) (zTop alpha B R i11)
      in [addTriV p00 p10 p11, addTriV p00 p11 p01])"

definition bottomCell :: "nat \<Rightarrow> nat \<Rightarrow> real \<Rightarrow> nat \<Rightarrow> nat \<Rightarrow> real tri list" where
  "bottomCell w h T y x =
     (let p00 = V w h T (real x) (real y) 0;
          p10 = V w h T (real (x + 1)) (real y) 0;
          p01 = V w h T (real x) (real (y + 1)) 0;
          p11 = V w h T (real (x + 1)) (real (y + 1)) 0
      in [addTriV p00 p11 p10, addTriV p00 p01 p11])"

definition addWall :: "nat \<Rightarrow> nat \<Rightarrow> real \<Rightarrow> nat \<Rightarrow> nat \<Rightarrow> nat \<Rightarrow> nat \<Rightarrow> real \<Rightarrow> real \<Rightarrow> real tri list" where
  "addWall w h T x0 y0 x1 y1 zTop0 zTop1 =
     (let a = V w h T (real x0) (real y0) 0;
          b = V w h T (real x1) (real y1) 0;
          c = V w h T (real x1) (real y1) zTop1;
          d = V w h T (real x0) (real y0) zTop0
      in [addTriV a b c, addTriV a c d])"

definition topSurface :: "byte list \<Rightarrow> nat \<Rightarrow> nat \<Rightarrow> real \<Rightarrow> real \<Rightarrow> real \<Rightarrow> real tri list" where
  "topSurface alpha w h T B R =
     concat (map (\<lambda>y. concat (map (topCell alpha w h T B R y) [0..<w - 1])) [0..<h - 1])"

definition bottomSurface :: "nat \<Rightarrow> nat \<Rightarrow> real \<Rightarrow> real tri list" where
  "bottomSurface w h T =
     concat (map (\<lambda>y. concat (map (bottomCell w h T y) [0..<w - 1])) [0..<h - 1])"

text \<open>The four loops over the boundary edges, in the order of the source.\<close>

definition sideWalls :: "byte list \<Rightarrow> nat \<Rightarrow> nat \<Rightarrow> real \<Rightarrow> real \<Rightarrow> real \<Rightarrow> real tri list" where
  "sideWalls alpha w h T B R =
     concat (map (\<lambda>x. addWall w h T x 0 (x + 1) 0
                          (zTop alpha B R (0 * w + x)) (zTop alpha B R (0 * w + (x + 1))))
                 [0..<w - 1]) @
     concat (map (\<lambda>x. addWall w h T (x + 1) (h - 1) x (h - 1)
                          (zTop alpha B R ((h - 1) * w + (x + 1))) (zTop alpha B R ((h - 1) * w + x)))
                 [0..<w - 1]) @
     concat (map (\<lambda>y. addWall w h T 0 (y + 1) 0 y
                          (zTop alpha B R ((y + 1) * w + 0)) (zTop alpha B R (y * w + 0)))
                 [0..<h - 1]) @
     concat (map (\<lambda>y. addWall w h T (w - 1) y (w - 1) (y + 1)
                          (zTop alpha B R (y * w + (w - 1))) (zTop alpha B R ((y + 1) * w + (w - 1))))
                 [0..<h - 1])"

text \<open>
  \<open>buildWatertightHeightmapSTL\<close>.  For \<open>w \<ge> 2\<close>, \<open>h \<ge> 2\<close> and an alpha array of at least
  \<open>w * h\<close> bytes every number the source computes is finite, and the result is the list
  of triangles in the order they are pushed.  Outside this range the source divides by
  zero or reads \<open>undefined\<close>, and coordinates are \<open>NaN\<close> or infinite: the model has no
  such triangles and says \<open>None\<close>.
\<close>

definition buildWatertightHeightmapSTL ::
  "byte list \<Rightarrow> nat \<Rightarrow> nat \<Rightarrow> real \<Rightarrow> real \<Rightarrow> real \<Rightarrow> real tri list option" where
  "buildWatertightHeightmapSTL alpha w h targetWidthMM baseThicknessMM reliefHeightMM =
     (if 2 \<le> w \<and> 2 \<le> h \<and> w * h \<le> length alpha
      then Some (topSurface alpha w h targetWidthMM baseThicknessMM reliefHeightMM @
                 bottomSurface w h targetWidthMM @
                 sideWalls alpha w h targetWidthMM baseThicknessMM reliefHeightMM)
      else None)"

text \<open>
  \<open>a2u[i] = clamp(Math.round(a2[i]), 0, 255)\<close> of \<open>main\<close>: \<open>NaN\<close> is stored in a
  \<open>Uint8Array\<close> as 0.
\<close>

definition toUint8 :: "real option list \<Rightarrow> byte list" where
  "toUint8 a2 =
     map (\<lambda>v. case v of None \<Rightarrow> 0 | Some r \<Rightarrow> of_int (max 0 (min 255 (round r)))) a2"

text \<open>
  The pipeline of \<open>main\<close> from the alpha channel on, with the grid size (256 in
  \<open>main\<close>) and the builder's options as parameters.
\<close>

definition reliefPipeline ::
  "byte list \<Rightarrow> nat \<Rightarrow> nat \<Rightarrow> nat \<Rightarrow> nat \<Rightarrow> real \<Rightarrow> real \<Rightarrow> real \<Rightarrow> real tri list option" where
  "reliefPipeline alpha w h W H T B R =
     (case resampleNearestAlpha alpha w h W H of
        Inl e \<Rightarrow> None
      | Inr a2 \<Rightarrow> buildWatertightHeightmapSTL (toUint8 a2) W H T B R)"

text \<open>The coordinates of the vertices of a triangle list, as the reader scans them.\<close>

definition xCoords :: "real tri list \<Rightarrow> real list" where
  "xCoords ts = concat (map (\<lambda>t. [ax t, bx t, cx t]) ts)"

definition yCoords :: "real tri list \<Rightarrow> real list" where
  "yCoords ts = concat (map (\<lambda>t. [ay t, by t, cy t]) ts)"

definition zCoords :: "real tri list \<Rightarrow> real list" where
  "zCoords ts = concat (map (\<lambda>t. [az t, bz t, cz t]) ts)"

text \<open>The coordinate range of a list is exactly \<open>[lo, hi]\<close>.\<close>

definition rangeIs :: "real list \<Rightarrow> real \<Rightarrow> real \<Rightarrow> bool" where
  "rangeIs xs lo hi = (lo \<in> set xs \<and> hi \<in> set xs \<and> list_all (\<lambda>x. lo \<le> x \<and> x \<le> hi) xs)"

section \<open>Color Quantizer (build_xqcL_coin_parts.js, lines 53-129 and 408-444)\<close>

type_synonym rgb = vec3

text \<open>\<open>luminance(...p)\<close> of a point \<open>[r, g, b]\<close>.\<close>

definition lum :: "rgb \<Rightarrow> real" where
  "lum p = (case p of (r, g, b) \<Rightarrow> luminance r g b)"

definition dist2 :: "rgb \<Rightarrow> rgb \<Rightarrow> real" where
  "dist2 p cc =
     (case p of (p0, p1, p2) \<Rightarrow> case cc of (c0, c1, c2) \<Rightarrow>
        (let dr = p0 - c0; dg = p1 - c1; db = p2 - c2 in dr * dr + dg * dg + db * db))"

text \<open>
  One iteration of the search for the nearest centre: \<open>if (d < bestD) { bestD = d; best = c; }\<close>.
  The initial \<open>bestD = Infinity\<close> is \<open>None\<close>.
\<close>

definition nearestStep :: "rgb \<Rightarrow> rgb list \<Rightarrow> nat \<Rightarrow> nat \<times> real option \<Rightarrow> nat \<times> real option" where
  "nearestStep p centers c s =
     (case s of (best, bestD) \<Rightarrow>
        (let d = dist2 p (centers ! c) in
         if (case bestD of None \<Rightarrow> True | Some bd \<Rightarrow> d < bd) then (c, Some d) else (best, bestD)))"

definition nearestCenterIndex :: "rgb \<Rightarrow> rgb list \<Rightarrow> nat" where
  "nearestCenterIndex p centers =
     fst (fold (nearestStep p centers) [0..<length centers] (0, None))"

text \<open>
  The deterministic initialisation: the points sorted by luminance (\<open>Array.prototype.sort\<close>
  is stable, as \<open>sort_key\<close> is), and the point at rank
  \<open>clamp(floor((i + 0.5) * (N / k)), 0, N - 1)\<close> for each \<open>i < k\<close>.
\<close>

definition initCenters :: "rgb list \<Rightarrow> nat \<Rightarrow> rgb list" where
  "initCenters points k =
     (let sorted = sort_key lum points; n = length sorted in
      map (\<lambda>i. sorted ! nat (max 0 (min (int n - 1) \<lfloor>(real i + 0.5) * (real n / real k)\<rfloor>)))
          [0..<k])"

text \<open>\<open>assign\<close> is a \<open>Uint16Array\<close>: the index stored is taken modulo \<open>2 ^ 16\<close>.\<close>

definition assignAll :: "rgb list \<Rightarrow> rgb list \<Rightarrow> nat list" where
  "assignAll points centers = map (\<lambda>p. nearestCenterIndex p centers mod 65536) points"

text \<open>
  The accumulation loop over the points with their assigned cluster.  \<open>sum[c][0] += p[0]\<close>
  throws a \<open>TypeError\<close> when \<open>sum[c]\<close> is \<open>undefined\<close>.
\<close>

fun accumulate :: "(nat \<times> rgb) list \<Rightarrow> (real \<times> real \<times> real \<times> real) list \<Rightarrow>
    error + (real \<times> real \<times> real \<times> real) list" where
  "accumulate [] acc = Inr acc"
| "accumulate ((c, p) # rest) acc =
     (if c < length acc
      then (case acc ! c of (s0, s1, s2, s3) \<Rightarrow> case p of (p0, p1, p2) \<Rightarrow>
              accumulate rest (acc[c := (s0 + p0, s1 + p1, s2 + p2, s3 + 1)]))
      else Inl TypeError)"

text \<open>A centre with no assigned point keeps its value.\<close>

definition recompute :: "(real \<times> real \<times> real \<times> real) list \<Rightarrow> rgb list \<Rightarrow> nat \<Rightarrow> rgb list" where
  "recompute acc centers k =
     fold (\<lambda>c cs. case acc ! c of (s0, s1, s2, s3) \<Rightarrow>
                    if s3 > 0 then cs[c := (s0 / s3, s1 / s3, s2 / s3)] else cs)
          [0..<k] centers"

definition kmeansIter :: "rgb list \<Rightarrow> nat \<Rightarrow> rgb list \<Rightarrow> error + rgb list" where
  "kmeansIter points k centers =
     (case accumulate (zip (assignAll points centers) points) (replicate k (0, 0, 0, 0)) of
        Inl e \<Rightarrow> Inl e
      | Inr acc \<Rightarrow> Inr (recompute acc centers k))"

fun kmeansLoop :: "nat \<Rightarrow> rgb list \<Rightarrow> nat \<Rightarrow> rgb list \<Rightarrow> error + rgb list" where
  "kmeansLoop 0 points k centers = Inr centers"
| "kmeansLoop (Suc n) points k centers =
     (case kmeansIter points k centers of
        Inl e \<Rightarrow> Inl e
      | Inr centers' \<Rightarrow> kmeansLoop n points k centers')"

definition kmeansDeterministic :: "rgb list \<Rightarrow> nat \<Rightarrow> nat \<Rightarrow> error + rgb list" where
  "kmeansDeterministic points k iters =
     (if points = [] then Inl NoPoints else kmeansLoop iters points k (initCenters points k))"

text \<open>
  In \<open>main\<close>: \<open>centers = kmeansDeterministic(points, 4, 10)\<close> is the array that
  \<open>nearestCenterIndex\<close> receives for every cell; the palette written to
  \<open>palette.json\<close> is a sorted copy (\<open>centers.map(...).sort(...)\<close>), of which only the
  colours are kept here.
\<close>

definition mainCenters :: "rgb list \<Rightarrow> error + rgb list" where
  "mainCenters points = kmeansDeterministic points 4 10"

definition mainPalette :: "rgb list \<Rightarrow> error + rgb list" where
  "mainPalette points =
     (case mainCenters points of Inl e \<Rightarrow> Inl e | Inr centers \<Rightarrow> Inr (sort_key lum centers))"

definition classifyCell :: "rgb list \<Rightarrow> rgb \<Rightarrow> error + nat" where
  "classifyCell points p =
     (case mainCenters points of Inl e \<Rightarrow> Inl e | Inr centers \<Rightarrow> Inr (nearestCenterIndex p centers))"

text \<open>
  Eight foreground points: black, blue, two dark yellows, two oranges, a light blue and
  green.
\<close>

definition demoPoints :: "rgb list" where
  "demoPoints =
     [(0, 0, 0), (0, 0, 1), (1 / 4, 1 / 4, 0), (1 / 4, 1 / 4, 0),
      (1, 1 / 4, 0), (1, 1 / 4, 0), (1 / 2, 1 / 2, 1), (0, 1, 0)]"

section \<open>Radial Coin Builder (build_xqcL_stl.js, lines 283-417)\<close>

record coinOptions =
  diameterMM :: real
  baseThicknessMM :: real
  reliefHeightMM :: real
  rimWidthMM :: real
  rimHeightMM :: real
  segments :: nat
  rings :: nat
  emojiScale :: real
  reliefGamma :: real
  minReliefMM :: real




































section \<open>Mask repair: proofs\<close>

lemma shrinks_refl: "shrinks m m"
  by (simp add: shrinks_def)

lemma shrinks_trans: "shrinks a b \<Longrightarrow> shrinks b c \<Longrightarrow> shrinks a c"
  by (simp add: shrinks_def)

lemma shrinks_clear: "shrinks (m[i := 0]) m"
  by (cases "i < length m") (auto simp: shrinks_def truthy_def nth_list_update split: if_splits)

lemma fold_shrinks:
  assumes "\<And>x m. shrinks (f x m) m"
  shows "shrinks (fold f xs m) m"
proof (induction xs arbitrary: m)
  case Nil
  show ?case by (simp add: shrinks_refl)
next
  case (Cons x xs)
  have "shrinks (fold f xs (f x m)) (f x m)" by (rule Cons.IH)
  then show ?case using assms shrinks_trans by fastforce
qed

lemma diagStep_shrinks: "shrinks (diagStep W y x m) m"
  by (auto simp: diagStep_def Let_def shrinks_clear shrinks_refl)

lemma breakDiagonalContacts_shrinks: "shrinks (breakDiagonalContacts m W H) m"
  unfolding breakDiagonalContacts_def
  by (intro fold_shrinks diagStep_shrinks)

lemma isoStep_shrinks: "shrinks (isoStep m W H y x out) out"
  by (auto simp: isoStep_def Let_def shrinks_clear shrinks_refl split: option.splits)

lemma removeIsolated_shrinks: "shrinks (removeIsolated m W H) m"
  unfolding removeIsolated_def
  by (intro fold_shrinks isoStep_shrinks)

lemma fold_upt_invariant:
  assumes "P 0 m" and "\<And>k m. k < n \<Longrightarrow> P k m \<Longrightarrow> P (Suc k) (f k m)"
  shows "P n (fold f [0..<n] m)"
  using assms
proof (induction n)
  case 0
  then show ?case by simp
next
  case (Suc n)
  have "P n (fold f [0..<n] m)"
    by (rule Suc.IH) (use Suc.prems in auto)
  then show ?case using Suc.prems(2) [of n] by simp
qed

lemma fold_fixed:
  assumes "\<And>x. x \<in> set xs \<Longrightarrow> f x m = m"
  shows "fold f xs m = m"
  using assms by (induction xs) auto

lemma idx_inj:
  assumes "x < W" "x' < W"
  shows "(idx W x y = idx W x' y') = (x = x' \<and> y = y')"
proof
  assume e: "idx W x y = idx W x' y'"
  then have "(y * W + x) mod W = (y' * W + x') mod W" by (simp add: idx_def)
  with assms have x: "x = x'" by simp
  from e have "(y * W + x) div W = (y' * W + x') div W" by (simp add: idx_def)
  with assms have "y = y'" by simp
  with x show "x = x' \<and> y = y'" by simp
qed simp

lemma idx_less: "x < W \<Longrightarrow> y < H \<Longrightarrow> idx W x y < W * H"
proof -
  assume a: "x < W" "y < H"
  then have "y * W + x < y * W + W" by simp
  also have "\<dots> = (Suc y) * W" by simp
  also have "\<dots> \<le> H * W" using a(2) by (intro mult_le_mono1) simp
  finally show ?thesis by (simp add: idx_def mult.commute)
qed

lemma cell_clear:
  assumes "x < W" "qx < W"
  shows "cell (m[idx W x y := 0]) W qx qy = (cell m W qx qy \<and> \<not> (qx = x \<and> qy = y))"
  using idx_inj [OF assms(2) assms(1), of qy y]
  by (auto simp: cell_def truthy_def nth_list_update)

lemma cell_diagStep:
  assumes "Suc x < W" "qx < W"
  shows "cell (diagStep W y x m) W qx qy =
           (cell m W qx qy \<and>
            \<not> (cell m W x y \<and> \<not> cell m W (Suc x) y \<and> \<not> cell m W x (Suc y) \<and> qx = Suc x \<and> qy = Suc y) \<and>
            \<not> (\<not> cell m W x y \<and> cell m W (Suc x) y \<and> \<not> cell m W (Suc x) (Suc y) \<and> qx = x \<and> qy = Suc y))"
proof -
  have x: "x < W" using assms by simp
  show ?thesis
    unfolding diagStep_def Let_def cell_def [symmetric]
    by (auto simp: cell_clear [OF assms] cell_clear [OF x assms(2)])
qed

lemma diagStep_current:
  assumes "Suc k < W"
  shows "\<not> diagPattern (diagStep W y k m) W k y"
  using assms by (simp add: diagPattern_def cell_diagStep) blast

lemma diagStep_earlier:
  assumes "Suc k < W" "Suc x' < W" "y' < y \<or> (y' = y \<and> x' < k)"
    and "\<not> diagPattern m W x' y'"
  shows "\<not> diagPattern (diagStep W y k m) W x' y'"
proof -
  have x': "x' < W" using assms(2) by simp
  show ?thesis
    using assms(3,4) unfolding diagPattern_def
    by (simp add: cell_diagStep [OF assms(1) assms(2)] cell_diagStep [OF assms(1) x']) (elim disjE; auto)
qed

lemma diagDone_step:
  assumes "diagDone m W y k" "Suc k < W"
  shows "diagDone (diagStep W y k m) W y (Suc k)"
  unfolding diagDone_def
proof (intro conjI allI impI)
  fix y' x' assume "y' < y" "Suc x' < W"
  then show "\<not> diagPattern (diagStep W y k m) W x' y'"
    using assms by (intro diagStep_earlier) (auto simp: diagDone_def)
next
  fix x' assume a: "x' < Suc k"
  show "\<not> diagPattern (diagStep W y k m) W x' y"
  proof (cases "x' = k")
    case True
    then show ?thesis using diagStep_current [OF assms(2)] by simp
  next
    case False
    with a have "x' < k" by simp
    then show ?thesis using assms by (intro diagStep_earlier) (auto simp: diagDone_def)
  qed
qed

lemma diagDone_row:
  assumes "diagDone m W y 0"
  shows "diagDone (fold (diagStep W y) [0..<W - 1] m) W (Suc y) 0"
proof -
  have "diagDone (fold (diagStep W y) [0..<W - 1] m) W y (W - 1)"
    by (rule fold_upt_invariant [where P = "\<lambda>k m. diagDone m W y k"])
       (use assms diagDone_step in auto)
  then show ?thesis
    by (auto simp: diagDone_def less_Suc_eq)
qed

lemma breakDiagonalContacts_noDiagonal: "noDiagonal (breakDiagonalContacts m W H) W H"
proof -
  have "diagDone (breakDiagonalContacts m W H) W (H - 1) 0"
    unfolding breakDiagonalContacts_def
  proof (rule fold_upt_invariant [where P = "\<lambda>y m. diagDone m W y 0"])
    show "diagDone m W 0 0" by (simp add: diagDone_def)
  next
    fix k m' assume "diagDone m' W k 0"
    then show "diagDone (fold (diagStep W k) [0..<W - 1] m') W (Suc k) 0"
      by (rule diagDone_row)
  qed
  then show ?thesis
    by (auto simp: noDiagonal_def diagDone_def)
qed

lemma diagStep_noop: "\<not> diagPattern m W x y \<Longrightarrow> diagStep W y x m = m"
  by (auto simp: diagStep_def diagPattern_def cell_def Let_def)

lemma breakDiagonalContacts_fixed:
  assumes "noDiagonal m W H"
  shows "breakDiagonalContacts m W H = m"
  unfolding breakDiagonalContacts_def
proof (rule fold_fixed)
  fix y assume "y \<in> set [0..<H - 1]"
  then have "\<And>x. x \<in> set [0..<W - 1] \<Longrightarrow> diagStep W y x m = m"
    using assms by (intro diagStep_noop) (auto simp: noDiagonal_def)
  then show "fold (diagStep W y) [0..<W - 1] m = m"
    by (rule fold_fixed)
qed

lemma neighbour_zero:
  assumes "cond \<longrightarrow> j < length m"
  shows "\<exists>a. neighbour m cond j = Some a \<and> (a = 0) = (\<not> (cond \<and> truthy m j))"
  using assms by (auto simp: neighbour_def truthy_def unat_eq_0)

lemma neighbourCount_zero:
  assumes len: "length m = W * H" and x: "x < W" and y: "y < H"
  shows "\<exists>n. neighbourCount m W H x y = Some n \<and>
             (n = 0) = (\<not> (x > 0 \<and> cell m W (x - 1) y) \<and> \<not> (x < W - 1 \<and> cell m W (x + 1) y) \<and>
                        \<not> (y > 0 \<and> cell m W x (y - 1)) \<and> \<not> (y < H - 1 \<and> cell m W x (y + 1)))"
proof -
  have "x > 0 \<longrightarrow> idx W (x - 1) y < length m"
    using x y len by (simp add: idx_less)
  from neighbour_zero [of "x > 0" "idx W (x - 1) y" m, OF this]
  obtain a where a: "neighbour m (x > 0) (idx W (x - 1) y) = Some a"
    "(a = 0) = (\<not> (x > 0 \<and> cell m W (x - 1) y))"
    unfolding cell_def by (elim exE conjE)
  have "x < W - 1 \<longrightarrow> idx W (x + 1) y < length m"
    using y len by (simp add: idx_less)
  from neighbour_zero [of "x < W - 1" "idx W (x + 1) y" m, OF this]
  obtain b where b: "neighbour m (x < W - 1) (idx W (x + 1) y) = Some b"
    "(b = 0) = (\<not> (x < W - 1 \<and> cell m W (x + 1) y))"
    unfolding cell_def by (elim exE conjE)
  have "y > 0 \<longrightarrow> idx W x (y - 1) < length m"
    using x y len by (simp add: idx_less)
  from neighbour_zero [of "y > 0" "idx W x (y - 1)" m, OF this]
  obtain c where c: "neighbour m (y > 0) (idx W x (y - 1)) = Some c"
    "(c = 0) = (\<not> (y > 0 \<and> cell m W x (y - 1)))"
    unfolding cell_def by (elim exE conjE)
  have "y < H - 1 \<longrightarrow> idx W x (y + 1) < length m"
    using x len by (simp add: idx_less)
  from neighbour_zero [of "y < H - 1" "idx W x (y + 1)" m, OF this]
  obtain d where d: "neighbour m (y < H - 1) (idx W x (y + 1)) = Some d"
    "(d = 0) = (\<not> (y < H - 1 \<and> cell m W x (y + 1)))"
    unfolding cell_def by (elim exE conjE)
  have "neighbourCount m W H x y = Some (a + b + c + d)"
    unfolding neighbourCount_def a(1) b(1) c(1) d(1) by (simp add: addN_def)
  moreover have "(a + b + c + d = 0) =
      (\<not> (x > 0 \<and> cell m W (x - 1) y) \<and> \<not> (x < W - 1 \<and> cell m W (x + 1) y) \<and>
       \<not> (y > 0 \<and> cell m W x (y - 1)) \<and> \<not> (y < H - 1 \<and> cell m W x (y + 1)))"
    using a(2) b(2) c(2) d(2) by simp
  ultimately show ?thesis
    by (intro exI conjI)
qed

lemma isoStep_eq:
  assumes "length m = W * H" "x < W" "y < H"
  shows "isoStep m W H y x out = (if isolatedCell m W H x y then out[idx W x y := 0] else out)"
proof -
  obtain n where n: "neighbourCount m W H x y = Some n"
    "(n = 0) = (\<not> (x > 0 \<and> cell m W (x - 1) y) \<and> \<not> (x < W - 1 \<and> cell m W (x + 1) y) \<and>
                \<not> (y > 0 \<and> cell m W x (y - 1)) \<and> \<not> (y < H - 1 \<and> cell m W x (y + 1)))"
    using neighbourCount_zero [OF assms] by blast
  show ?thesis
    unfolding isoStep_def Let_def isolatedCell_def n(1) cell_def [symmetric]
    using n(2) by auto
qed

lemma isoDone_step:
  assumes "length m = W * H" "k < W" "y < H" "isoDone out m W H y k"
  shows "isoDone (isoStep m W H y k out) m W H y (Suc k)"
  unfolding isoDone_def
proof (intro allI impI)
  fix qx qy assume c: "qx < W" "qy < H"
  have old: "cell out W qx qy =
        (cell m W qx qy \<and> \<not> ((qy < y \<or> (qy = y \<and> qx < k)) \<and> isolatedCell m W H qx qy))"
    using assms(4) c by (simp add: isoDone_def)
  show "cell (isoStep m W H y k out) W qx qy =
        (cell m W qx qy \<and> \<not> ((qy < y \<or> (qy = y \<and> qx < Suc k)) \<and> isolatedCell m W H qx qy))"
    unfolding isoStep_eq [OF assms(1-3)]
    using old by (auto simp: cell_clear [OF assms(2) c(1)] less_Suc_eq)
qed

lemma isoDone_row:
  assumes "length m = W * H" "y < H" "isoDone out m W H y 0"
  shows "isoDone (fold (isoStep m W H y) [0..<W] out) m W H (Suc y) 0"
proof -
  have "isoDone (fold (isoStep m W H y) [0..<W] out) m W H y W"
    by (rule fold_upt_invariant [where P = "\<lambda>k out. isoDone out m W H y k"])
       (use assms isoDone_step in auto)
  then show ?thesis
    by (auto simp: isoDone_def less_Suc_eq)
qed

lemma cell_removeIsolated:
  assumes "length m = W * H" "qx < W" "qy < H"
  shows "cell (removeIsolated m W H) W qx qy = (cell m W qx qy \<and> \<not> isolatedCell m W H qx qy)"
proof -
  have "isoDone (removeIsolated m W H) m W H H 0"
    unfolding removeIsolated_def
  proof (rule fold_upt_invariant [where P = "\<lambda>y out. isoDone out m W H y 0"])
    show "isoDone m m W H 0 0" by (simp add: isoDone_def)
  next
    fix k out assume "k < H" "isoDone out m W H k 0"
    then show "isoDone (fold (isoStep m W H k) [0..<W] out) m W H (Suc k) 0"
      using assms(1) by (intro isoDone_row)
  qed
  then show ?thesis using assms(2,3) by (simp add: isoDone_def)
qed

lemma removeIsolated_fixed:
  assumes "length m = W * H" "noIsolated m W H"
  shows "removeIsolated m W H = m"
  unfolding removeIsolated_def
proof (rule fold_fixed)
  fix y assume y: "y \<in> set [0..<H]"
  have "\<And>x. x \<in> set [0..<W] \<Longrightarrow> isoStep m W H y x m = m"
    using assms y by (simp add: isoStep_eq noIsolated_def)
  then show "fold (isoStep m W H y) [0..<W] m = m"
    by (rule fold_fixed)
qed

lemma removeIsolated_noIsolated:
  assumes len: "length m = W * H"
  shows "noIsolated (removeIsolated m W H) W H"
  unfolding noIsolated_def
proof (intro ballI)
  fix y x assume "y \<in> {0..<H}" "x \<in> {0..<W}"
  then have xy: "x < W" "y < H" by simp_all
  note c = cell_removeIsolated [OF len]
  have l: "x > 0 \<Longrightarrow> cell (removeIsolated m W H) W (x - 1) y = (cell m W (x - 1) y \<and> \<not> isolatedCell m W H (x - 1) y)"
    using xy by (intro c) simp_all
  have r: "x < W - 1 \<Longrightarrow> cell (removeIsolated m W H) W (x + 1) y = (cell m W (x + 1) y \<and> \<not> isolatedCell m W H (x + 1) y)"
    using xy by (intro c) simp_all
  have u: "y > 0 \<Longrightarrow> cell (removeIsolated m W H) W x (y - 1) = (cell m W x (y - 1) \<and> \<not> isolatedCell m W H x (y - 1))"
    using xy by (intro c) simp_all
  have d: "y < H - 1 \<Longrightarrow> cell (removeIsolated m W H) W x (y + 1) = (cell m W x (y + 1) \<and> \<not> isolatedCell m W H x (y + 1))"
    using xy by (intro c) simp_all
  have nl: "x > 0 \<Longrightarrow> cell m W x y \<Longrightarrow> \<not> isolatedCell m W H (x - 1) y"
    using xy by (auto simp: isolatedCell_def)
  have nr: "x < W - 1 \<Longrightarrow> cell m W x y \<Longrightarrow> \<not> isolatedCell m W H (x + 1) y"
    by (auto simp: isolatedCell_def)
  have nu: "y > 0 \<Longrightarrow> cell m W x y \<Longrightarrow> \<not> isolatedCell m W H x (y - 1)"
    using xy by (auto simp: isolatedCell_def)
  have nd: "y < H - 1 \<Longrightarrow> cell m W x y \<Longrightarrow> \<not> isolatedCell m W H x (y + 1)"
    by (auto simp: isolatedCell_def)
  show "\<not> isolatedCell (removeIsolated m W H) W H x y"
  proof
    assume iso: "isolatedCell (removeIsolated m W H) W H x y"
    then have here: "cell m W x y" "\<not> isolatedCell m W H x y"
      using c [OF xy] by (simp_all add: isolatedCell_def)
    from here(2) here(1) consider "x > 0 \<and> cell m W (x - 1) y" | "x < W - 1 \<and> cell m W (x + 1) y"
      | "y > 0 \<and> cell m W x (y - 1)" | "y < H - 1 \<and> cell m W x (y + 1)"
      unfolding isolatedCell_def by blast
    then show False
    proof cases
      case 1 then show ?thesis using iso l nl here(1) by (simp add: isolatedCell_def)
    next
      case 2 then show ?thesis using iso r nr here(1) by (simp add: isolatedCell_def)
    next
      case 3 then show ?thesis using iso u nu here(1) by (simp add: isolatedCell_def)
    next
      case 4 then show ?thesis using iso d nd here(1) by (simp add: isolatedCell_def)
    qed
  qed
qed

lemma removeIsolated_keeps_noDiagonal:
  assumes len: "length m = W * H" and nd: "noDiagonal m W H"
  shows "noDiagonal (removeIsolated m W H) W H"
  unfolding noDiagonal_def
proof (intro ballI)
  fix y x assume "y \<in> {0..<H - 1}" "x \<in> {0..<W - 1}"
  then have xy: "Suc x < W" "Suc y < H" by simp_all
  then have xy': "x < W" "y < H" by simp_all
  note c = cell_removeIsolated [OF len]
  have np: "\<not> diagPattern m W x y"
    using nd xy by (simp add: noDiagonal_def)
  have a: "cell m W x y \<Longrightarrow> \<not> isolatedCell m W H (Suc x) y \<and> \<not> isolatedCell m W H x (Suc y)"
    by (auto simp: isolatedCell_def)
  have d: "cell m W (Suc x) (Suc y) \<Longrightarrow> \<not> isolatedCell m W H (Suc x) y \<and> \<not> isolatedCell m W H x (Suc y)"
    using xy by (auto simp: isolatedCell_def)
  have b: "cell m W (Suc x) y \<Longrightarrow> \<not> isolatedCell m W H x y \<and> \<not> isolatedCell m W H (Suc x) (Suc y)"
    using xy by (auto simp: isolatedCell_def)
  have cc: "cell m W x (Suc y) \<Longrightarrow> \<not> isolatedCell m W H x y \<and> \<not> isolatedCell m W H (Suc x) (Suc y)"
    using xy by (auto simp: isolatedCell_def)
  show "\<not> diagPattern (removeIsolated m W H) W x y"
    using np a b cc d
    unfolding diagPattern_def
    by (simp add: c [OF xy'] c [OF xy(1) xy'(2)] c [OF xy'(1) xy(2)] c [OF xy]) blast
qed

lemma repair_fixed_point:
  assumes "length m = W * H"
  shows "repair (repair m W H) W H = repair m W H \<and>
         noDiagonal (repair m W H) W H \<and> noIsolated (repair m W H) W H"
proof -
  have len1: "length (breakDiagonalContacts m W H) = W * H"
    using breakDiagonalContacts_shrinks [of m W H] assms by (simp add: shrinks_def)
  have len2: "length (repair m W H) = W * H"
    using removeIsolated_shrinks [of "breakDiagonalContacts m W H" W H] len1
    by (simp add: shrinks_def repair_def)
  have nd: "noDiagonal (repair m W H) W H"
    unfolding repair_def
    by (intro removeIsolated_keeps_noDiagonal len1 breakDiagonalContacts_noDiagonal)
  have ni: "noIsolated (repair m W H) W H"
    unfolding repair_def by (intro removeIsolated_noIsolated len1)
  have "breakDiagonalContacts (repair m W H) W H = repair m W H"
    using nd by (rule breakDiagonalContacts_fixed)
  moreover have "removeIsolated (repair m W H) W H = repair m W H"
    using len2 ni by (rule removeIsolated_fixed)
  ultimately have "repair (repair m W H) W H = repair m W H"
    by (simp add: repair_def)
  with nd ni show ?thesis by simp
qed

text \<open>
  Claim C5.  For every mask of a \<open>W\<close> by \<open>H\<close> grid, the composite repair (diagonal-contact
  breaking followed by isolated-cell removal) is idempotent, and in the repaired mask no
  2x2 block shows a forbidden diagonal pattern and no included cell has zero included
  4-connected neighbours.
\<close>

theorem repair_idempotent:
  assumes "length m = W * H"
  shows "repair (repair m W H) W H = repair m W H \<and>
         noDiagonal (repair m W H) W H \<and> noIsolated (repair m W H) W H"
  using assms by (rule repair_fixed_point)

theorem repair_idempotent_witness:
  "length [1, 0, 0, 0, 1, 1, 0, 0, 1 :: byte] = 3 * 3 \<and>
   repair [1, 0, 0, 0, 1, 1, 0, 0, 1] 3 3 = [0, 0, 0, 0, 0, 1, 0, 0, 1] \<and>
   repair (repair [1, 0, 0, 0, 1, 1, 0, 0, 1] 3 3) 3 3 = repair [1, 0, 0, 0, 1, 1, 0, 0, 1] 3 3 \<and>
   noDiagonal (repair [1, 0, 0, 0, 1, 1, 0, 0, 1] 3 3) 3 3 \<and>
   noIsolated (repair [1, 0, 0, 0, 1, 1, 0, 0, 1] 3 3) 3 3"
proof -
  have len: "length [1, 0, 0, 0, 1, 1, 0, 0, 1 :: byte] = 3 * 3" by simp
  have val: "repair [1, 0, 0, 0, 1, 1, 0, 0, 1] 3 3 = [0, 0, 0, 0, 0, 1, 0, 0, 1]"
    by code_simp
  show ?thesis
    using len val repair_idempotent [OF len] by (simp only: simp_thms)
qed

text \<open>
  Claim C9.  Both repair passes are shrinking: each keeps the size of the mask, and every
  cell included in the output of diagonal-contact breaking, or of isolated-cell removal,
  was already included in the input mask.
\<close>

theorem repair_passes_shrink:
  "length (breakDiagonalContacts m W H) = length m \<and>
   length (removeIsolated m W H) = length m \<and>
   (\<forall>i. truthy (breakDiagonalContacts m W H) i \<longrightarrow> truthy m i) \<and>
   (\<forall>i. truthy (removeIsolated m W H) i \<longrightarrow> truthy m i)"
  using breakDiagonalContacts_shrinks [of m W H] removeIsolated_shrinks [of m W H]
  by (simp add: shrinks_def)

theorem repair_passes_shrink_witness:
  "truthy (breakDiagonalContacts [1, 0, 0, 1] 2 2) 0 \<and> truthy [1, 0, 0, 1] 0 \<and>
   truthy (removeIsolated [1, 1, 0, 0] 2 2) 1 \<and> truthy [1, 1, 0, 0] 1"
proof -
  have d: "truthy (breakDiagonalContacts [1, 0, 0, 1] 2 2) 0" by code_simp
  have r: "truthy (removeIsolated [1, 1, 0, 0] 2 2) 1" by code_simp
  show ?thesis
    using d r repair_passes_shrink [of "[1, 0, 0, 1]" 2 2] repair_passes_shrink [of "[1, 1, 0, 0]" 2 2]
    by blast
qed

























section \<open>Resampling and normals: proofs\<close>


















section \<open>Binary Mesh Codec: proofs\<close>

lemma putBytes_ok:
  "off + length bs \<le> length buf \<Longrightarrow>
   putBytes buf off bs = Inr (take off buf @ bs @ drop (off + length bs) buf)"
  by (simp add: putBytes_def)

lemma putAll_tiled:
  assumes "tiled d fs" "off + d + length (concat (map snd fs)) \<le> length buf"
  shows "putAll buf off fs =
           Inr (take (off + d) buf @ concat (map snd fs) @
                drop (off + d + length (concat (map snd fs))) buf)"
  using assms
proof (induction fs arbitrary: d buf)
  case Nil
  then show ?case by simp
next
  case (Cons f fs)
  obtain d' bs where f: "f = (d', bs)" by (cases f)
  let ?rest = "concat (map snd fs)"
  let ?buf1 = "take (off + d) buf @ bs @ drop (off + d + length bs) buf"
  have d': "d' = d" and t: "tiled (d + length bs) fs"
    using Cons.prems(1) f by simp_all
  have len: "off + d + length bs + length ?rest \<le> length buf"
    using Cons.prems(2) f by simp
  then have p: "putBytes buf (off + d) bs = Inr ?buf1"
    by (intro putBytes_ok) simp
  have len1: "length ?buf1 = length buf"
    using len by simp
  have ih: "putAll ?buf1 off fs =
      Inr (take (off + (d + length bs)) ?buf1 @ ?rest @
           drop (off + (d + length bs) + length ?rest) ?buf1)"
    by (rule Cons.IH [OF t]) (use len len1 in simp)
  have tk: "take (off + (d + length bs)) ?buf1 = take (off + d) buf @ bs"
    using len by simp
  have dr: "drop (off + (d + length bs) + length ?rest) ?buf1 =
            drop (off + d + length bs + length ?rest) buf"
    using len by (simp add: ac_simps)
  show ?case
    unfolding f d' putAll.simps p sum.case ih tk dr
    by (simp add: add.assoc)
qed

lemma length_u32le: "length (u32le n) = 4"
  by (simp add: u32le_def)

lemma length_f32le: "length (f32le v) = 4"
  by (simp add: f32le_def length_u32le)

lemma tiled_triFields: "tiled 0 (triFields enc t)"
  by (simp add: triFields_def length_f32le)

lemma concat_triFields: "concat (map snd (triFields enc t)) = triBytes enc t"
  by (simp add: triFields_def triBytes_def u16le_def)

lemma length_triBytes: "length (triBytes enc t) = 50"
  by (simp add: triBytes_def length_f32le)

lemma putAll_tri:
  assumes "off + 50 \<le> length buf"
  shows "putAll buf off (triFields enc t) = Inr (take off buf @ triBytes enc t @ drop (off + 50) buf)"
  using putAll_tiled [OF tiled_triFields, of off enc t buf] assms
  by (simp add: concat_triFields length_triBytes)

lemma writeTris_ok:
  assumes "off + 50 * length ts \<le> length buf"
  shows "writeTris enc buf off ts =
           Inr (take off buf @ concat (map (triBytes enc) ts) @ drop (off + 50 * length ts) buf)"
  using assms
proof (induction ts arbitrary: buf off)
  case Nil
  then show ?case by simp
next
  case (Cons t ts)
  let ?buf1 = "take off buf @ triBytes enc t @ drop (off + 50) buf"
  let ?rest = "concat (map (triBytes enc) ts)"
  have len: "off + 50 + 50 * length ts \<le> length buf"
    using Cons.prems by simp
  then have p: "putAll buf off (triFields enc t) = Inr ?buf1"
    by (intro putAll_tri) simp
  have len1: "length ?buf1 = length buf"
    using len by (simp add: length_triBytes)
  have ih: "writeTris enc ?buf1 (off + 50) ts =
      Inr (take (off + 50) ?buf1 @ ?rest @ drop (off + 50 + 50 * length ts) ?buf1)"
    by (rule Cons.IH) (use len len1 in simp)
  have tk: "take (off + 50) ?buf1 = take off buf @ triBytes enc t"
    using len by (simp add: length_triBytes)
  have dr: "drop (off + 50 + 50 * length ts) ?buf1 = drop (off + 50 + 50 * length ts) buf"
    using len by (simp add: length_triBytes ac_simps)
  show ?case
    unfolding writeTris.simps p sum.case ih tk dr
    by (simp add: add.assoc)
qed

lemma length_header80: "length header80 = 80"
  by (simp add: header80_def)

lemma header_written:
  "writeAscii0 (alloc (84 + n * 50)) ''xqcL heightmap relief STL'' =
     header80 @ replicate (4 + n * 50) 0"
proof -
  have "drop 25 (replicate (84 + n * 50) (0::byte)) = replicate 55 0 @ replicate (4 + n * 50) 0"
    by (simp add: replicate_add [symmetric])
  then show ?thesis
    by (simp add: writeAscii0_def alloc_def header80_def Let_def)
qed

lemma count_written:
  assumes "n < 2 ^ 32"
  shows "writeUInt32LE (header80 @ replicate (4 + n * 50) 0) n 80 =
           Inr (header80 @ u32le n @ replicate (n * 50) 0)"
proof -
  have "80 + length (u32le n) \<le> length (header80 @ replicate (4 + n * 50) (0::byte))"
    by (simp add: length_header80 length_u32le)
  then have "putBytes (header80 @ replicate (4 + n * 50) 0) 80 (u32le n) =
      Inr (take 80 (header80 @ replicate (4 + n * 50) 0) @ u32le n @
           drop (80 + length (u32le n)) (header80 @ replicate (4 + n * 50) 0))"
    by (rule putBytes_ok)
  then show ?thesis
    using assms by (simp add: writeUInt32LE_def length_header80 length_u32le)
qed

lemma writeBinarySTL_bytes:
  assumes "length tris < 2 ^ 32"
  shows "writeBinarySTL enc tris =
           Inr (header80 @ u32le (length tris) @ concat (map (triBytes enc) tris))"
proof -
  let ?n = "length tris"
  let ?out2 = "header80 @ u32le ?n @ replicate (?n * 50) (0::byte)"
  have w: "writeTris enc ?out2 84 tris =
      Inr (take 84 ?out2 @ concat (map (triBytes enc) tris) @ drop (84 + 50 * ?n) ?out2)"
    by (rule writeTris_ok) (simp add: length_header80 length_u32le)
  have tk: "take 84 ?out2 = header80 @ u32le ?n"
    by (simp add: length_header80 length_u32le)
  have dr: "drop (84 + 50 * ?n) ?out2 = []"
    by (simp add: length_header80 length_u32le)
  show ?thesis
    unfolding writeBinarySTL_def Let_def header_written count_written [OF assms] sum.case w tk dr
    by simp
qed

lemma length_concat_triBytes: "length (concat (map (triBytes enc) ts)) = 50 * length ts"
  by (induction ts) (simp_all add: length_triBytes)

lemma u32_digits:
  assumes "n < 2 ^ 32"
  shows "n mod 256 + 256 * (n div 256 mod 256) + 65536 * (n div 65536 mod 256) +
         16777216 * (n div 16777216 mod 256) = (n::nat)"
proof -
  have a: "n div 16777216 mod 256 = n div 16777216"
    using assms by (simp add: less_mult_imp_div_less)
  have "n div 65536 div 256 = n div 16777216"
    by (simp add: div_mult2_eq [symmetric])
  then have b: "n div 65536 = 256 * (n div 16777216) + n div 65536 mod 256"
    using mult_div_mod_eq [of 256 "n div 65536"] by simp
  have "n div 256 div 256 = n div 65536"
    by (simp add: div_mult2_eq [symmetric])
  then have c: "n div 256 = 256 * (n div 65536) + n div 256 mod 256"
    using mult_div_mod_eq [of 256 "n div 256"] by simp
  have d: "n = 256 * (n div 256) + n mod 256"
    by simp
  show ?thesis
    using a b c d by linarith
qed

lemma unat_byte_mod: "unat (of_nat (k mod 256) :: byte) = k mod 256"
  by (simp add: unat_of_nat)

lemma readUInt32LE_u32le:
  assumes "n < 2 ^ 32"
  shows "readUInt32LE (pre @ u32le n @ post) (length pre) = Inr n"
proof -
  have v: "(pre @ u32le n @ post) ! (length pre) = of_nat (n mod 256)"
    "(pre @ u32le n @ post) ! (length pre + 1) = of_nat (n div 256 mod 256)"
    "(pre @ u32le n @ post) ! (length pre + 2) = of_nat (n div 65536 mod 256)"
    "(pre @ u32le n @ post) ! (length pre + 3) = of_nat (n div 16777216 mod 256)"
    by (simp_all add: u32le_def nth_append)
  show ?thesis
    unfolding readUInt32LE_def v unat_byte_mod u32_digits [OF assms]
    by (simp add: length_u32le)
qed

lemma readFloatLE_ok:
  "off + 4 \<le> length buf \<Longrightarrow> \<exists>v. readFloatLE buf off = Inr v"
  by (simp add: readFloatLE_def readUInt32LE_def)

lemma readVerts_ok:
  assumes "off + 12 * k \<le> length buf"
  shows "\<exists>box'. readVerts upd buf k (off, box) = Inr (off + 12 * k, box')"
  using assms
proof (induction k arbitrary: off box)
  case 0
  then show ?case by simp
next
  case (Suc k)
  obtain x where x: "readFloatLE buf off = Inr x"
    using readFloatLE_ok [of off buf] Suc.prems by auto
  obtain y where y: "readFloatLE buf (off + 4) = Inr y"
    using readFloatLE_ok [of "off + 4" buf] Suc.prems by auto
  obtain z where z: "readFloatLE buf (off + 8) = Inr z"
    using readFloatLE_ok [of "off + 8" buf] Suc.prems by auto
  obtain box' where "readVerts upd buf k (off + 12, upd box (x, y, z)) = Inr (off + 12 + 12 * k, box')"
    using Suc.IH [of "off + 12" "upd box (x, y, z)"] Suc.prems by auto
  then show ?case
    by (simp add: x y z add.assoc)
qed

lemma readTris_ok:
  assumes "off + 50 * t \<le> length buf"
  shows "\<exists>box'. readTris upd buf t (off, box) = Inr (off + 50 * t, box')"
  using assms
proof (induction t arbitrary: off box)
  case 0
  then show ?case by simp
next
  case (Suc t)
  obtain box1 where v: "readVerts upd buf 3 (off + 12, box) = Inr (off + 12 + 12 * 3, box1)"
    using readVerts_ok [of "off + 12" 3 buf upd box] Suc.prems by auto
  obtain box' where "readTris upd buf t (off + 50, box1) = Inr (off + 50 + 50 * t, box')"
    using Suc.IH [of "off + 50" box1] Suc.prems by auto
  then show ?case
    by (simp add: v ac_simps)
qed

lemma stl_roundtrip:
  assumes "length tris < 2 ^ 32"
  shows "\<exists>buf. writeBinarySTL enc tris = Inr buf \<and>
           buf = header80 @ u32le (length tris) @ concat (map (triBytes enc) tris) \<and>
           length buf = 84 + 50 * length tris \<and>
           readUInt32LE buf 80 = Inr (length tris) \<and>
           (\<exists>box. readBinarySTL upd box0 buf = Inr (length tris, box))"
proof -
  let ?n = "length tris"
  let ?buf = "header80 @ u32le ?n @ concat (map (triBytes enc) tris)"
  have w: "writeBinarySTL enc tris = Inr ?buf"
    using assms by (rule writeBinarySTL_bytes)
  have len: "length ?buf = 84 + 50 * ?n"
    by (simp add: length_header80 length_u32le length_concat_triBytes)
  have cnt: "readUInt32LE ?buf 80 = Inr ?n"
    using readUInt32LE_u32le [OF assms, of header80 "concat (map (triBytes enc) tris)"]
    by (simp add: length_header80)
  obtain box where "readTris upd ?buf ?n (84, box0) = Inr (84 + 50 * ?n, box)"
    using readTris_ok [of 84 ?n ?buf upd box0] len by auto
  then have rd: "readBinarySTL upd box0 ?buf = Inr (?n, box)"
    by (simp add: readBinarySTL_def cnt)
  show ?thesis
    using w len cnt rd by blast
qed

text \<open>
  Claim C6.  For every triangle list the codec writes, the byte buffer is the 80-byte
  header, the 4-byte little-endian count, and per triangle 50 bytes (12 of the normal, 36
  of the vertices, 2 attribute bytes); its size is \<open>84 + 50 * triangleCount\<close>; the count
  stored at offset 80 is the number of triangles; and the companion reader returns that
  count.  A JavaScript array has fewer than \<open>2 ^ 32\<close> elements.
\<close>

theorem writeBinarySTL_size_and_count:
  assumes "length tris < 2 ^ 32"
  shows "\<exists>buf. writeBinarySTL enc tris = Inr buf \<and>
           buf = header80 @ u32le (length tris) @ concat (map (triBytes enc) tris) \<and>
           length header80 = 80 \<and> length (u32le (length tris)) = 4 \<and>
           length (concat (map (triBytes enc) tris)) = 50 * length tris \<and>
           length buf = 84 + 50 * length tris \<and>
           readUInt32LE buf 80 = Inr (length tris) \<and>
           (\<exists>box. readBinarySTL upd box0 buf = Inr (length tris, box))"
  using stl_roundtrip [OF assms, of enc upd box0]
  by (simp add: length_header80 length_u32le length_concat_triBytes)

theorem writeBinarySTL_size_and_count_witness:
  "length [addTri 0 0 0 1 0 0 0 1 0] < 2 ^ 32 \<and>
   (\<exists>buf. writeBinarySTL (\<lambda>x. 0) [addTri 0 0 0 1 0 0 0 1 0] = Inr buf \<and>
      length buf = 84 + 50 * 1 \<and>
      readUInt32LE buf 80 = Inr 1 \<and>
      (\<exists>box. readBinarySTL (\<lambda>b v. b) () buf = Inr (1, box)))"
proof -
  have h: "length [addTri 0 0 0 1 0 0 0 1 0] < 2 ^ 32" by simp
  show ?thesis
    using h writeBinarySTL_size_and_count [OF h, of "\<lambda>x. 0" "\<lambda>b v. b" "()"]
    by auto
qed


section \<open>Sampler and heightfield builder: proofs\<close>

lemma clamp01: "0 \<le> clamp u 0 1 \<and> clamp u 0 1 \<le> 1"
  by (simp add: clamp_def)

lemma pos_range:
  assumes "1 \<le> n"
  shows "0 \<le> pos n u \<and> pos n u \<le> real n - 1"
proof -
  have n: "0 \<le> real n - 1" using assms by simp
  have "clamp u 0 1 * (real n - 1) \<le> 1 * (real n - 1)"
    using clamp01 [of u] n by (intro mult_right_mono) simp_all
  moreover have "0 \<le> clamp u 0 1 * (real n - 1)"
    using clamp01 [of u] n by (intro mult_nonneg_nonneg) simp_all
  ultimately show ?thesis by (simp add: pos_def)
qed

lemma index0_range:
  assumes "1 \<le> n"
  shows "0 \<le> index0 n u \<and> index0 n u < int n"
proof -
  have "0 \<le> \<lfloor>pos n u\<rfloor>" using pos_range [OF assms, of u] by simp
  moreover have "pos n u < real n" using pos_range [OF assms, of u] by simp
  then have "\<lfloor>pos n u\<rfloor> < int n" by (simp add: floor_less_iff)
  ultimately show ?thesis by (simp add: index0_def)
qed

lemma index1_range:
  assumes "1 \<le> n"
  shows "0 \<le> index1 n u \<and> index1 n u < int n"
  using index0_range [OF assms, of u] assms by (simp add: index1_def)

lemma weight_range: "0 \<le> weight n u \<and> weight n u \<le> 1"
proof -
  have "of_int \<lfloor>pos n u\<rfloor> \<le> pos n u" by simp
  moreover have "pos n u < of_int \<lfloor>pos n u\<rfloor> + 1" by linarith
  ultimately show ?thesis unfolding weight_def index0_def by linarith
qed

lemma byte_index_range:
  assumes "0 \<le> ix" "ix < int w" "0 \<le> iy" "iy < int h" "k < 4"
  shows "0 \<le> (iy * int w + ix) * 4 + int k \<and> (iy * int w + ix) * 4 + int k < int (4 * w * h)"
proof -
  have "iy * int w \<le> (int h - 1) * int w"
    using assms(4) by (intro mult_right_mono) simp_all
  then have "iy * int w + ix < int h * int w"
    using assms(2) by (simp add: algebra_simps)
  then have "iy * int w + ix + 1 \<le> int h * int w" by simp
  then have "(iy * int w + ix + 1) * 4 \<le> int h * int w * 4" by simp
  moreover have "0 \<le> iy * int w" using assms(3) by simp
  ultimately show ?thesis using assms(1,5) by (simp add: algebra_simps)
qed

lemma px_ok:
  assumes "0 \<le> ix" "ix < int (width img)" "0 \<le> iy" "iy < int (height img)" "k < 4"
    and "length (data img) = 4 * width img * height img"
  shows "\<exists>c. px img ix iy k = Some c \<and> 0 \<le> c \<and> c \<le> 1"
proof -
  have r: "0 \<le> pxIndex img ix iy + int k \<and> pxIndex img ix iy + int k < int (length (data img))"
    unfolding pxIndex_def assms(6) using assms(1-5) by (rule byte_index_range)
  have "unat (data img ! nat (pxIndex img ix iy + int k)) < 2 ^ 8"
    using unsigned_less [of "data img ! nat (pxIndex img ix iy + int k)"] by simp
  then have "unat (data img ! nat (pxIndex img ix iy + int k)) \<le> 255"
    by simp
  then have "real (unat (data img ! nat (pxIndex img ix iy + int k))) \<le> real 255"
    by (rule of_nat_mono)
  then have hi: "real (unat (data img ! nat (pxIndex img ix iy + int k))) / 255 \<le> 1"
    by simp
  have lo: "0 \<le> real (unat (data img ! nat (pxIndex img ix iy + int k))) / 255"
    by (intro divide_nonneg_nonneg of_nat_0_le_iff) simp
  have "px img ix iy k = Some (real (unat (data img ! nat (pxIndex img ix iy + int k))) / 255)"
    using r by (simp add: px_def Let_def)
  then show ?thesis using lo hi by blast
qed

lemma mix_ok:
  assumes "\<exists>a. p = Some a \<and> 0 \<le> a \<and> a \<le> 1" "\<exists>b. q = Some b \<and> 0 \<le> b \<and> b \<le> 1" "0 \<le> t" "t \<le> 1"
  shows "\<exists>c. mix p q t = Some c \<and> 0 \<le> c \<and> c \<le> 1"
proof -
  obtain a where a: "p = Some a" "0 \<le> a" "a \<le> 1" using assms(1) by blast
  obtain b where b: "q = Some b" "0 \<le> b" "b \<le> 1" using assms(2) by blast
  have lo: "0 \<le> a * (1 - t) + b * t"
    using a(2) b(2) assms(3,4) by (intro add_nonneg_nonneg mult_nonneg_nonneg) simp_all
  have "a * (1 - t) \<le> 1 * (1 - t)"
    using a(3) assms(4) by (intro mult_right_mono) simp_all
  moreover have "b * t \<le> 1 * t"
    using b(3) assms(3) by (intro mult_right_mono) simp_all
  ultimately have hi: "a * (1 - t) + b * t \<le> 1" by simp
  show ?thesis using lo hi by (simp add: mix_def a(1) b(1))
qed

lemma channel_ok:
  assumes "1 \<le> width img" "1 \<le> height img" "length (data img) = 4 * width img * height img" "k < 4"
  shows "\<exists>c. mix (mix (px img (index0 (width img) u) (index0 (height img) v) k)
                       (px img (index1 (width img) u) (index0 (height img) v) k) (weight (width img) u))
                  (mix (px img (index0 (width img) u) (index1 (height img) v) k)
                       (px img (index1 (width img) u) (index1 (height img) v) k) (weight (width img) u))
                  (weight (height img) v) = Some c \<and> 0 \<le> c \<and> c \<le> 1"
proof -
  note x0 = index0_range [OF assms(1), of u] and x1 = index1_range [OF assms(1), of u]
  note y0 = index0_range [OF assms(2), of v] and y1 = index1_range [OF assms(2), of v]
  note tx = weight_range [of "width img" u] and ty = weight_range [of "height img" v]
  have p00: "\<exists>c. px img (index0 (width img) u) (index0 (height img) v) k = Some c \<and> 0 \<le> c \<and> c \<le> 1"
    using x0 y0 assms(3,4) by (intro px_ok) simp_all
  have p10: "\<exists>c. px img (index1 (width img) u) (index0 (height img) v) k = Some c \<and> 0 \<le> c \<and> c \<le> 1"
    using x1 y0 assms(3,4) by (intro px_ok) simp_all
  have p01: "\<exists>c. px img (index0 (width img) u) (index1 (height img) v) k = Some c \<and> 0 \<le> c \<and> c \<le> 1"
    using x0 y1 assms(3,4) by (intro px_ok) simp_all
  have p11: "\<exists>c. px img (index1 (width img) u) (index1 (height img) v) k = Some c \<and> 0 \<le> c \<and> c \<le> 1"
    using x1 y1 assms(3,4) by (intro px_ok) simp_all
  show ?thesis
    by (intro mix_ok p00 p10 p01 p11) (use tx ty in simp_all)
qed

lemma sample_channels:
  "sampleRGBA_bilinear img u v =
     map (\<lambda>k. mix (mix (px img (index0 (width img) u) (index0 (height img) v) k)
                       (px img (index1 (width img) u) (index0 (height img) v) k) (weight (width img) u))
                  (mix (px img (index0 (width img) u) (index1 (height img) v) k)
                       (px img (index1 (width img) u) (index1 (height img) v) k) (weight (width img) u))
                  (weight (height img) v)) [0, 1, 2, 3]"
proof -
  have "[0..<4] = [0, 1, 2, 3::nat]" by (simp add: upt_rec)
  then show ?thesis by (simp add: sampleRGBA_bilinear_def Let_def)
qed

lemma sampler_total:
  assumes "1 \<le> width img" "1 \<le> height img" "length (data img) = 4 * width img * height img"
  shows "\<exists>r g b a. sampleRGBA_bilinear img u v = [Some r, Some g, Some b, Some a] \<and>
           0 \<le> r \<and> r \<le> 1 \<and> 0 \<le> g \<and> g \<le> 1 \<and> 0 \<le> b \<and> b \<le> 1 \<and> 0 \<le> a \<and> a \<le> 1"
proof -
  obtain r where r: "mix (mix (px img (index0 (width img) u) (index0 (height img) v) 0)
                       (px img (index1 (width img) u) (index0 (height img) v) 0) (weight (width img) u))
                  (mix (px img (index0 (width img) u) (index1 (height img) v) 0)
                       (px img (index1 (width img) u) (index1 (height img) v) 0) (weight (width img) u))
                  (weight (height img) v) = Some r" "0 \<le> r" "r \<le> 1"
    using channel_ok [OF assms, of 0 u v] by auto
  obtain g where g: "mix (mix (px img (index0 (width img) u) (index0 (height img) v) 1)
                       (px img (index1 (width img) u) (index0 (height img) v) 1) (weight (width img) u))
                  (mix (px img (index0 (width img) u) (index1 (height img) v) 1)
                       (px img (index1 (width img) u) (index1 (height img) v) 1) (weight (width img) u))
                  (weight (height img) v) = Some g" "0 \<le> g" "g \<le> 1"
    using channel_ok [OF assms, of 1 u v] by auto
  obtain b where b: "mix (mix (px img (index0 (width img) u) (index0 (height img) v) 2)
                       (px img (index1 (width img) u) (index0 (height img) v) 2) (weight (width img) u))
                  (mix (px img (index0 (width img) u) (index1 (height img) v) 2)
                       (px img (index1 (width img) u) (index1 (height img) v) 2) (weight (width img) u))
                  (weight (height img) v) = Some b" "0 \<le> b" "b \<le> 1"
    using channel_ok [OF assms, of 2 u v] by auto
  obtain a where a: "mix (mix (px img (index0 (width img) u) (index0 (height img) v) 3)
                       (px img (index1 (width img) u) (index0 (height img) v) 3) (weight (width img) u))
                  (mix (px img (index0 (width img) u) (index1 (height img) v) 3)
                       (px img (index1 (width img) u) (index1 (height img) v) 3) (weight (width img) u))
                  (weight (height img) v) = Some a" "0 \<le> a" "a \<le> 1"
    using channel_ok [OF assms, of 3 u v] by auto
  have "sampleRGBA_bilinear img u v = [Some r, Some g, Some b, Some a]"
    unfolding sample_channels using r(1) g(1) b(1) a(1) by simp
  then show ?thesis using r g b a by blast
qed

lemma indices_in_bounds:
  assumes "1 \<le> width img" "1 \<le> height img" "length (data img) = 4 * width img * height img"
    and "ix = index0 (width img) u \<or> ix = index1 (width img) u"
    and "iy = index0 (height img) v \<or> iy = index1 (height img) v"
  shows "0 \<le> ix \<and> ix < int (width img) \<and> 0 \<le> iy \<and> iy < int (height img) \<and>
         (\<forall>k < 4. 0 \<le> pxIndex img ix iy + int k \<and> pxIndex img ix iy + int k < int (length (data img)))"
proof -
  have x: "0 \<le> ix \<and> ix < int (width img)"
    using assms(4) index0_range [OF assms(1), of u] index1_range [OF assms(1), of u] by auto
  have y: "0 \<le> iy \<and> iy < int (height img)"
    using assms(5) index0_range [OF assms(2), of v] index1_range [OF assms(2), of v] by auto
  have "0 \<le> pxIndex img ix iy + int k \<and> pxIndex img ix iy + int k < int (length (data img))"
    if "k < 4" for k
    unfolding pxIndex_def assms(3) using x y that by (intro byte_index_range) simp_all
  then show ?thesis using x y by blast
qed


text \<open>
  Claim C10.  The bilinear sampler is total and range-bounded: for every image of width
  and height \<open>\<ge> 1\<close> with its \<open>4 * width * height\<close> bytes, and every real pair \<open>(u, v)\<close>,
  inside \<open>[0, 1]\<close> or not, the four pixel indices lie within the image, every byte read
  lies within the buffer, and each of the four returned channels is a number in
  \<open>[0, 1]\<close>.  A byte is in \<open>[0, 255]\<close> by its type.
\<close>

theorem sampleRGBA_bilinear_bounded:
  assumes "1 \<le> width img" "1 \<le> height img" "length (data img) = 4 * width img * height img"
  shows "(\<forall>ix \<in> {index0 (width img) u, index1 (width img) u}.
          \<forall>iy \<in> {index0 (height img) v, index1 (height img) v}.
            0 \<le> ix \<and> ix < int (width img) \<and> 0 \<le> iy \<and> iy < int (height img) \<and>
            (\<forall>k < 4. 0 \<le> pxIndex img ix iy + int k \<and>
                      pxIndex img ix iy + int k < int (length (data img)))) \<and>
         (\<exists>r g b a. sampleRGBA_bilinear img u v = [Some r, Some g, Some b, Some a] \<and>
            0 \<le> r \<and> r \<le> 1 \<and> 0 \<le> g \<and> g \<le> 1 \<and> 0 \<le> b \<and> b \<le> 1 \<and> 0 \<le> a \<and> a \<le> 1)"
proof -
  have i: "\<forall>ix \<in> {index0 (width img) u, index1 (width img) u}.
          \<forall>iy \<in> {index0 (height img) v, index1 (height img) v}.
            0 \<le> ix \<and> ix < int (width img) \<and> 0 \<le> iy \<and> iy < int (height img) \<and>
            (\<forall>k < 4. 0 \<le> pxIndex img ix iy + int k \<and>
                      pxIndex img ix iy + int k < int (length (data img)))"
  proof (intro ballI)
    fix ix iy
    assume "ix \<in> {index0 (width img) u, index1 (width img) u}"
      and "iy \<in> {index0 (height img) v, index1 (height img) v}"
    then have "ix = index0 (width img) u \<or> ix = index1 (width img) u"
      and "iy = index0 (height img) v \<or> iy = index1 (height img) v"
      by simp_all
    then show "0 \<le> ix \<and> ix < int (width img) \<and> 0 \<le> iy \<and> iy < int (height img) \<and>
              (\<forall>k < 4. 0 \<le> pxIndex img ix iy + int k \<and>
                        pxIndex img ix iy + int k < int (length (data img)))"
      by (rule indices_in_bounds [OF assms])
  qed
  have s: "\<exists>r g b a. sampleRGBA_bilinear img u v = [Some r, Some g, Some b, Some a] \<and>
            0 \<le> r \<and> r \<le> 1 \<and> 0 \<le> g \<and> g \<le> 1 \<and> 0 \<le> b \<and> b \<le> 1 \<and> 0 \<le> a \<and> a \<le> 1"
    using assms by (rule sampler_total)
  show ?thesis using i s by (rule conjI)
qed

theorem sampleRGBA_bilinear_bounded_witness:
  "1 \<le> width \<lparr>width = 2, height = 1, data = [0, 0, 0, 255, 255, 255, 255, 255]\<rparr> \<and>
   1 \<le> height \<lparr>width = 2, height = 1, data = [0, 0, 0, 255, 255, 255, 255, 255]\<rparr> \<and>
   length (data \<lparr>width = 2, height = 1, data = [0, 0, 0, 255, 255, 255, 255, 255]\<rparr>) =
     4 * width \<lparr>width = 2, height = 1, data = [0, 0, 0, 255, 255, 255, 255, 255]\<rparr> *
     height \<lparr>width = 2, height = 1, data = [0, 0, 0, 255, 255, 255, 255, 255]\<rparr> \<and>
   (\<exists>r g b a.
      sampleRGBA_bilinear \<lparr>width = 2, height = 1, data = [0, 0, 0, 255, 255, 255, 255, 255]\<rparr> 7 (- 3) =
        [Some r, Some g, Some b, Some a] \<and>
      0 \<le> r \<and> r \<le> 1 \<and> 0 \<le> g \<and> g \<le> 1 \<and> 0 \<le> b \<and> b \<le> 1 \<and> 0 \<le> a \<and> a \<le> 1)"
proof -
  let ?img = "\<lparr>width = 2, height = 1, data = [0, 0, 0, 255, 255, 255, 255, 255]\<rparr>"
  have h: "1 \<le> width ?img" "1 \<le> height ?img" "length (data ?img) = 4 * width ?img * height ?img"
    by simp_all
  show ?thesis
    using h sampleRGBA_bilinear_bounded [OF h, of 7 "- 3"] by blast
qed

lemma addTriV_z:
  "az (addTriV (a1, a2, a3) (b1, b2, b3) (c1, c2, c3)) = a3"
  "bz (addTriV (a1, a2, a3) (b1, b2, b3) (c1, c2, c3)) = b3"
  "cz (addTriV (a1, a2, a3) (b1, b2, b3) (c1, c2, c3)) = c3"
  by (simp_all add: addTriV_def addTri_def Let_def)

lemma addTriV_x:
  "ax (addTriV (a1, a2, a3) (b1, b2, b3) (c1, c2, c3)) = a1"
  "bx (addTriV (a1, a2, a3) (b1, b2, b3) (c1, c2, c3)) = b1"
  "cx (addTriV (a1, a2, a3) (b1, b2, b3) (c1, c2, c3)) = c1"
  by (simp_all add: addTriV_def addTri_def Let_def)

lemma addTriV_y:
  "ay (addTriV (a1, a2, a3) (b1, b2, b3) (c1, c2, c3)) = a2"
  "by (addTriV (a1, a2, a3) (b1, b2, b3) (c1, c2, c3)) = b2"
  "cy (addTriV (a1, a2, a3) (b1, b2, b3) (c1, c2, c3)) = c2"
  by (simp_all add: addTriV_def addTri_def Let_def)

lemma V_tuple:
  "V w h T x y z =
     (x * (T / (real w - 1)) - (real w - 1) * (T / (real w - 1)) / 2,
      y * (T / (real h - 1)) - (real h - 1) * (T / (real h - 1)) / 2, z)"
  by (simp add: V_def Let_def)

lemma zTop_opaque: "alpha ! i = 255 \<Longrightarrow> zTop alpha B R i = B + R"
  by (simp add: zTop_def)

lemma topCell_flat:
  assumes "Suc x < w" "Suc y < h" "\<forall>i < w * h. alpha ! i = 255" "t \<in> set (topCell alpha w h T B R y x)"
  shows "az t = B + R \<and> bz t = B + R \<and> cz t = B + R"
proof -
  have x: "x < w" and y: "y < h" using assms(1,2) by simp_all
  have "y * w + x < w * h" "y * w + (x + 1) < w * h" "(y + 1) * w + x < w * h"
    "(y + 1) * w + (x + 1) < w * h"
    using idx_less [OF x y] idx_less [OF assms(1) y] idx_less [OF x assms(2)] idx_less [OF assms(1,2)]
    by (simp_all add: idx_def)
  then have z: "zTop alpha B R (y * w + x) = B + R" "zTop alpha B R (y * w + (x + 1)) = B + R"
    "zTop alpha B R ((y + 1) * w + x) = B + R" "zTop alpha B R ((y + 1) * w + (x + 1)) = B + R"
    using assms(3) by (simp_all only: zTop_opaque)
  show ?thesis
    using assms(4) unfolding topCell_def Let_def V_tuple z
    by (simp only: list.set insert_iff empty_iff) (elim disjE; simp only: addTriV_z; simp)
qed

lemma topSurface_flat:
  assumes "\<forall>i < w * h. alpha ! i = 255" "t \<in> set (topSurface alpha w h T B R)"
  shows "az t = B + R \<and> bz t = B + R \<and> cz t = B + R"
proof -
  obtain x y where xy: "y \<in> set [0..<h - 1]" "x \<in> set [0..<w - 1]"
    and t: "t \<in> set (topCell alpha w h T B R y x)"
    using assms(2) unfolding topSurface_def by auto
  have "Suc x < w" "Suc y < h" using xy by auto
  then show ?thesis using assms(1) t by (intro topCell_flat)
qed

lemma resample_demo:
  "resampleNearestAlpha [255, 255, 255, 255] 2 2 4 4 = Inr (replicate 16 (Some 255))"
  by code_simp

lemma toUint8_demo: "toUint8 (replicate 16 (Some 255)) = replicate 16 255"
  by (simp add: toUint8_def)

lemma xs_cell [simp]:
  "xCoords (addTriV (a1, a2, a3) (b1, b2, b3) (c1, c2, c3) # ts) = a1 # b1 # c1 # xCoords ts"
  "yCoords (addTriV (a1, a2, a3) (b1, b2, b3) (c1, c2, c3) # ts) = a2 # b2 # c2 # yCoords ts"
  "zCoords (addTriV (a1, a2, a3) (b1, b2, b3) (c1, c2, c3) # ts) = a3 # b3 # c3 # zCoords ts"
  by (simp_all add: xCoords_def yCoords_def zCoords_def addTriV_x addTriV_y addTriV_z)

lemma coords_nil [simp]: "xCoords [] = []" "yCoords [] = []" "zCoords [] = []"
  by (simp_all add: xCoords_def yCoords_def zCoords_def)

lemma demo_build:
  "\<exists>tris. buildWatertightHeightmapSTL (replicate 16 255) 4 4 60 2 6 = Some tris \<and>
     rangeIs (xCoords tris) (- 30) 30 \<and> rangeIs (yCoords tris) (- 30) 30 \<and> rangeIs (zCoords tris) 0 8"
proof -
  have u3: "[0..<3] = [0, 1, 2::nat]" by (simp add: upt_rec)
  have r: "replicate 16 (255::byte) = [255,255,255,255,255,255,255,255,255,255,255,255,255,255,255,255]"
    by (simp add: numeral_eq_Suc)
  show ?thesis
    unfolding buildWatertightHeightmapSTL_def
    by (simp add: topSurface_def bottomSurface_def sideWalls_def topCell_def bottomCell_def addWall_def
        Let_def V_tuple zTop_def u3 r rangeIs_def)
qed


lemma length_topSurface: "length (topSurface alpha w h T B R) = 2 * (w - 1) * (h - 1)"
proof -
  have row: "length (concat (map (topCell alpha w h T B R y) xs)) = 2 * length xs" for y xs
    by (induction xs) (simp_all add: topCell_def Let_def)
  have "length (concat (map (\<lambda>y. concat (map (topCell alpha w h T B R y) [0..<w - 1])) ys)) =
          2 * (w - 1) * length ys" for ys
    by (induction ys) (simp_all add: row)
  then show ?thesis by (simp add: topSurface_def)
qed

lemma relief_demo:
  "\<exists>tris. reliefPipeline [255, 255, 255, 255] 2 2 4 4 60 2 6 = Some tris \<and>
     rangeIs (xCoords tris) (- 30) 30 \<and> rangeIs (yCoords tris) (- 30) 30 \<and> rangeIs (zCoords tris) 0 8"
  using demo_build by (simp add: reliefPipeline_def resample_demo toUint8_demo)

lemma relief_flat:
  assumes "2 \<le> w" "2 \<le> h"
  shows "buildWatertightHeightmapSTL (replicate (w * h) 255) w h T B R =
           Some (topSurface (replicate (w * h) 255) w h T B R @ bottomSurface w h T @
                 sideWalls (replicate (w * h) 255) w h T B R) \<and>
         length (topSurface (replicate (w * h) 255) w h T B R) = 2 * (w - 1) * (h - 1) \<and>
         (\<forall>t \<in> set (topSurface (replicate (w * h) 255) w h T B R).
            az t = B + R \<and> bz t = B + R \<and> cz t = B + R)"
proof -
  have "\<forall>i < w * h. replicate (w * h) (255::byte) ! i = 255" by simp
  then have "\<forall>t \<in> set (topSurface (replicate (w * h) 255) w h T B R).
            az t = B + R \<and> bz t = B + R \<and> cz t = B + R"
    using topSurface_flat by blast
  then show ?thesis
    using assms by (simp add: buildWatertightHeightmapSTL_def length_topSurface)
qed

text \<open>
  Claim C7.  A 2x2 all-opaque image resampled to a 4x4 grid and passed through the
  Heightfield Relief Builder with \<open>targetWidth = 60\<close>, \<open>baseThickness = 2\<close>,
  \<open>reliefHeight = 6\<close> yields triangles whose Z range is exactly \<open>[0, 8]\<close> and whose X and Y
  ranges are exactly \<open>[-30, 30]\<close>; and on every grid of uniform alpha 255 the top surface
  is flat at exactly \<open>baseThickness + reliefHeight\<close>.
\<close>

theorem relief_opaque:
  "(\<exists>tris. reliefPipeline [255, 255, 255, 255] 2 2 4 4 60 2 6 = Some tris \<and>
      rangeIs (xCoords tris) (- 30) 30 \<and> rangeIs (yCoords tris) (- 30) 30 \<and>
      rangeIs (zCoords tris) 0 8) \<and>
   (2 \<le> w \<and> 2 \<le> h \<longrightarrow>
      buildWatertightHeightmapSTL (replicate (w * h) 255) w h T B R =
        Some (topSurface (replicate (w * h) 255) w h T B R @ bottomSurface w h T @
              sideWalls (replicate (w * h) 255) w h T B R) \<and>
      length (topSurface (replicate (w * h) 255) w h T B R) = 2 * (w - 1) * (h - 1) \<and>
      (\<forall>t \<in> set (topSurface (replicate (w * h) 255) w h T B R).
         az t = B + R \<and> bz t = B + R \<and> cz t = B + R))"
  using relief_demo relief_flat [of w h T B R] by blast

theorem relief_opaque_witness:
  "(2::nat) \<le> 3 \<and> (2::nat) \<le> 2 \<and>
   length (topSurface (replicate (3 * 2) 255) 3 2 60 2 6) = 2 * (3 - 1) * (2 - 1) \<and>
   az (topSurface (replicate (3 * 2) 255) 3 2 60 2 6 ! 0) = 2 + 6 \<and>
   bz (topSurface (replicate (3 * 2) 255) 3 2 60 2 6 ! 0) = 2 + 6 \<and>
   cz (topSurface (replicate (3 * 2) 255) 3 2 60 2 6 ! 0) = 2 + 6"
proof -
  let ?top = "topSurface (replicate (3 * 2) 255) 3 2 60 2 6"
  have h: "(2::nat) \<le> 3 \<and> (2::nat) \<le> 2" by simp
  have r: "length ?top = 2 * (3 - 1) * (2 - 1) \<and>
        (\<forall>t \<in> set ?top. az t = 2 + 6 \<and> bz t = 2 + 6 \<and> cz t = 2 + 6)"
    using h relief_opaque [of 3 2 60 2 6] by blast
  then have "0 < length ?top" by simp
  then have "?top ! 0 \<in> set ?top" by (rule nth_mem)
  then show ?thesis using h r by blast
qed

section \<open>Color Quantizer: proofs\<close>

lemma demo_init:
  "initCenters demoPoints 4 = [(0, 0, 1), (1 / 4, 1 / 4, 0), (1, 1 / 4, 0), (0, 1, 0)]"
  by (simp add: initCenters_def demoPoints_def lum_def luminance_def upt_rec Let_def)

lemma demo_assign1:
  "assignAll demoPoints [(0, 0, 1), (1 / 4, 1 / 4, 0), (1, 1 / 4, 0), (0, 1, 0)] = [1, 0, 1, 1, 2, 2, 0, 3]"
  by (simp add: assignAll_def demoPoints_def nearestCenterIndex_def nearestStep_def dist2_def upt_rec Let_def)

lemma demo_iter1:
  "kmeansIter demoPoints 4 [(0, 0, 1), (1 / 4, 1 / 4, 0), (1, 1 / 4, 0), (0, 1, 0)] =
     Inr [(1 / 4, 1 / 4, 1), (1 / 6, 1 / 6, 0), (1, 1 / 4, 0), (0, 1, 0)]"
  unfolding kmeansIter_def demo_assign1
  by (simp add: demoPoints_def recompute_def upt_rec eval_nat_numeral)


lemma demo_assign2:
  "assignAll demoPoints [(1 / 4, 1 / 4, 1), (1 / 6, 1 / 6, 0), (1, 1 / 4, 0), (0, 1, 0)] =
     [1, 0, 1, 1, 2, 2, 0, 3]"
  by (simp add: assignAll_def demoPoints_def nearestCenterIndex_def nearestStep_def dist2_def upt_rec Let_def)

lemma demo_iter2:
  "kmeansIter demoPoints 4 [(1 / 4, 1 / 4, 1), (1 / 6, 1 / 6, 0), (1, 1 / 4, 0), (0, 1, 0)] =
     Inr [(1 / 4, 1 / 4, 1), (1 / 6, 1 / 6, 0), (1, 1 / 4, 0), (0, 1, 0)]"
  unfolding kmeansIter_def demo_assign2
  by (simp add: demoPoints_def recompute_def upt_rec eval_nat_numeral)

lemma kmeansLoop_fixed:
  assumes "kmeansIter points k cs = Inr cs"
  shows "kmeansLoop n points k cs = Inr cs"
  using assms by (induction n) simp_all

lemma demo_centers:
  "mainCenters demoPoints = Inr [(1 / 4, 1 / 4, 1), (1 / 6, 1 / 6, 0), (1, 1 / 4, 0), (0, 1, 0)]"
proof -
  have ne: "demoPoints \<noteq> []" by (simp add: demoPoints_def)
  have "kmeansLoop (Suc 9) demoPoints 4 (initCenters demoPoints 4) =
        Inr [(1 / 4, 1 / 4, 1), (1 / 6, 1 / 6, 0), (1, 1 / 4, 0), (0, 1, 0)]"
    unfolding kmeansLoop.simps demo_init demo_iter1 sum.case
    by (rule kmeansLoop_fixed [OF demo_iter2])
  then show ?thesis
    using ne by (simp add: mainCenters_def kmeansDeterministic_def)
qed

text \<open>
  Claim C2 says that the centres are sorted by luminance before they reach any consumer,
  the classification included.  For the eight points above the centres that
  \<open>nearestCenterIndex\<close> receives are light blue, dark yellow, orange, green: the first
  is brighter than the second.  Only the palette is sorted.
\<close>

theorem centers_unsorted_counterexample:
  "demoPoints \<noteq> [] \<and>
   mainCenters demoPoints = Inr [(1 / 4, 1 / 4, 1), (1 / 6, 1 / 6, 0), (1, 1 / 4, 0), (0, 1, 0)] \<and>
   \<not> sorted (map lum [(1 / 4, 1 / 4, 1), (1 / 6, 1 / 6, 0), (1, 1 / 4, 0), (0, 1, 0)]) \<and>
   classifyCell demoPoints (0, 0, 0) = Inr 1 \<and>
   mainPalette demoPoints = Inr [(1 / 6, 1 / 6, 0), (1 / 4, 1 / 4, 1), (1, 1 / 4, 0), (0, 1, 0)]"
proof -
  have ne: "demoPoints \<noteq> []" by (simp add: demoPoints_def)
  have u: "\<not> sorted (map lum [(1 / 4, 1 / 4, 1), (1 / 6, 1 / 6, 0), (1, 1 / 4, 0), (0, 1, 0)])"
    by (simp add: lum_def luminance_def)
  have c: "classifyCell demoPoints (0, 0, 0) = Inr 1"
    by (simp add: classifyCell_def demo_centers nearestCenterIndex_def nearestStep_def dist2_def upt_rec Let_def)
  have p: "mainPalette demoPoints = Inr [(1 / 6, 1 / 6, 0), (1 / 4, 1 / 4, 1), (1, 1 / 4, 0), (0, 1, 0)]"
    by (simp add: mainPalette_def demo_centers lum_def luminance_def)
  show ?thesis using ne demo_centers u c p by (intro conjI)
qed

lemma nearestCenterIndex_less:
  assumes "centers \<noteq> []"
  shows "nearestCenterIndex p centers < length centers"
proof -
  let ?n = "length centers"
  have "fst (fold (nearestStep p centers) [0..<?n] (0, None)) < ?n"
  proof (rule fold_upt_invariant [where P = "\<lambda>k (s :: nat \<times> real option). fst s < ?n"])
    show "fst (0::nat, None::real option) < ?n" using assms by simp
  next
    fix k and s :: "nat \<times> real option" assume "k < ?n" "fst s < ?n"
    then show "fst (nearestStep p centers k s) < ?n"
      by (cases s) (simp add: nearestStep_def Let_def)
  qed
  then show ?thesis by (simp add: nearestCenterIndex_def)
qed

lemma accumulate_ok:
  assumes "\<forall>c \<in> fst ` set xs. c < length acc"
  shows "\<exists>acc'. accumulate xs acc = Inr acc' \<and> length acc' = length acc"
  using assms
proof (induction xs arbitrary: acc)
  case Nil
  then show ?case by simp
next
  case (Cons x xs)
  obtain c p where x: "x = (c, p)" by (cases x)
  obtain p0 p1 p2 where p: "p = (p0, p1, p2)" by (cases p)
  obtain s0 s1 s2 s3 where s: "acc ! c = (s0, s1, s2, s3)" by (cases "acc ! c")
  have c: "c < length acc" using Cons.prems x by simp
  have "\<exists>acc'. accumulate xs (acc[c := (s0 + p0, s1 + p1, s2 + p2, s3 + 1)]) = Inr acc' \<and>
          length acc' = length (acc[c := (s0 + p0, s1 + p1, s2 + p2, s3 + 1)])"
    by (rule Cons.IH) (use Cons.prems in simp)
  then show ?case using c by (simp add: x p s)
qed

lemma length_recompute: "length (recompute acc centers k) = length centers"
proof -
  have "length (fold (\<lambda>c cs. case acc ! c of (s0, s1, s2, s3) \<Rightarrow>
                    if s3 > 0 then cs[c := (s0 / s3, s1 / s3, s2 / s3)] else cs) xs centers) =
        length centers" for xs
    by (induction xs arbitrary: centers) (simp_all split: prod.splits)
  then show ?thesis by (simp add: recompute_def)
qed

lemma kmeansIter_ok:
  assumes "length centers = k" "0 < k"
  shows "\<exists>cs. kmeansIter points k centers = Inr cs \<and> length cs = k"
proof -
  have ne: "centers \<noteq> []" using assms by auto
  have "\<forall>c \<in> set (assignAll points centers). c < k"
  proof
    fix c assume "c \<in> set (assignAll points centers)"
    then obtain p where "c = nearestCenterIndex p centers mod 65536"
      by (auto simp: assignAll_def)
    moreover have "nearestCenterIndex p centers mod 65536 \<le> nearestCenterIndex p centers"
      by simp
    ultimately show "c < k"
      using nearestCenterIndex_less [OF ne, of p] assms(1) by simp
  qed
  then have "\<forall>c \<in> fst ` set (zip (assignAll points centers) points).
               c < length (replicate k (0::real, 0::real, 0::real, 0::real))"
    by (auto dest: set_zip_leftD)
  then obtain acc where "accumulate (zip (assignAll points centers) points) (replicate k (0, 0, 0, 0)) = Inr acc"
    using accumulate_ok by blast
  then show ?thesis
    using assms(1) by (simp add: kmeansIter_def length_recompute)
qed

lemma kmeansLoop_ok:
  assumes "length centers = k" "0 < k"
  shows "\<exists>cs. kmeansLoop n points k centers = Inr cs \<and> length cs = k"
  using assms
proof (induction n arbitrary: centers)
  case 0
  then show ?case by simp
next
  case (Suc n)
  obtain cs where cs: "kmeansIter points k centers = Inr cs" "length cs = k"
    using kmeansIter_ok [OF Suc.prems] by blast
  show ?case
    using Suc.IH [OF cs(2) Suc.prems(2)] by (simp add: cs(1))
qed

lemma length_initCenters: "length (initCenters points k) = k"
  by (simp add: initCenters_def Let_def)

lemma mainCenters_ok:
  assumes "points \<noteq> []"
  shows "\<exists>centers. mainCenters points = Inr centers \<and> length centers = 4"
  using assms kmeansLoop_ok [of "initCenters points 4" 4 10 points]
  by (simp add: mainCenters_def kmeansDeterministic_def length_initCenters)

text \<open>
  Claim C2, as the code has it.  For every non-empty foreground point set the quantizer
  returns four centres, in the order of its internal cluster index; downstream
  classification receives them in that order; what is sorted by luminance ascending is
  the palette that is reported, a sorted copy of the centres.
\<close>

theorem palette_sorted:
  assumes "points \<noteq> []"
  shows "\<exists>centers. mainCenters points = Inr centers \<and> length centers = 4 \<and>
           (\<forall>p. classifyCell points p = Inr (nearestCenterIndex p centers)) \<and>
           mainPalette points = Inr (sort_key lum centers) \<and>
           sorted (map lum (sort_key lum centers)) \<and>
           set (sort_key lum centers) = set centers \<and> length (sort_key lum centers) = 4"
proof -
  obtain centers where c: "mainCenters points = Inr centers" "length centers = 4"
    using mainCenters_ok [OF assms] by blast
  show ?thesis
    using c by (simp add: classifyCell_def mainPalette_def sorted_sort_key)
qed

theorem palette_sorted_witness:
  "demoPoints \<noteq> [] \<and>
   (\<exists>centers. mainCenters demoPoints = Inr centers \<and> length centers = 4 \<and>
      mainPalette demoPoints = Inr (sort_key lum centers) \<and>
      sorted (map lum (sort_key lum centers)))"
proof -
  have ne: "demoPoints \<noteq> []" by (simp add: demoPoints_def)
  show ?thesis using ne palette_sorted [OF ne] by blast
qed

section \<open>Radial Coin Builder: proofs\<close>




































end
